theory Spec2Isabelle
  imports Complex_Main "HOL-Library.Sublist"
begin

section \<open>Thrown values\<close>

text \<open>
  Modelled from the spec: the enumeration \<^verbatim>\<open>ChannelErrorType\<close> and the class
  \<^verbatim>\<open>ChannelError\<close> live in \<^verbatim>\<open>utils/broadcast_channel\<close>, which is not among the
  sources. \<^verbatim>\<open>engine.ts\<close> distinguishes \<^verbatim>\<open>CLOSED\<close>, \<^verbatim>\<open>LAGGED\<close> and, in an
  \<^verbatim>\<open>else\<close> branch, every other type; the spec's taxonomy names \<^verbatim>\<open>ChannelClosed\<close> and
  \<^verbatim>\<open>ChannelLagged\<close>. \<open>OTHER\<close> stands for the remaining types.
\<close>

datatype ChannelErrorType = CLOSED | LAGGED | OTHER

text \<open>
  What a JavaScript \<^verbatim>\<open>throw\<close> carries: a plain \<^verbatim>\<open>Error\<close> with its message, a
  \<^verbatim>\<open>TypeError\<close> with its message, or a \<^verbatim>\<open>ChannelError\<close> with its type and message.
  (Thrown values are taken to be error objects, which a template literal can print.)
\<close>

datatype thrown = Error string | TypeError string | ChannelError ChannelErrorType string

text \<open>
  The string a template literal \<^verbatim>\<open>${e}\<close> produces for a thrown error, as
  \<^verbatim>\<open>Error.prototype.toString\<close> builds it: the name alone when the message is empty,
  otherwise name, colon, message. (A \<^verbatim>\<open>ChannelError\<close>, whose class is modelled from the
  spec as said above, is taken to print under its own name.)
\<close>

definition errorString :: "string \<Rightarrow> string \<Rightarrow> string" where
  "errorString name message = (if message = [] then name else name @ '': '' @ message)"

fun toString :: "thrown \<Rightarrow> string" where
  "toString (Error m) = errorString ''Error'' m"
| "toString (TypeError m) = errorString ''TypeError'' m"
| "toString (ChannelError t m) = errorString ''ChannelError'' m"

text \<open>The result of awaiting a collaborator call: it returns, or it throws.\<close>

datatype outcome = Returns | Throws thrown

section \<open>Engine configuration\<close>

text \<open>
  \<^verbatim>\<open>EngineConfig\<close> of \<^verbatim>\<open>engine.ts\<close>, with the fields the task loops and the channels
  read. JavaScript numbers are modelled as integers (counts and whole milliseconds).
\<close>

record EngineConfig =
  eventChannelCapacity :: int
  actionChannelCapacity :: int
  maxConsecutiveErrors :: int
  initialBackoffMs :: int
  maxBackoffMs :: int
  stopOnCriticalError :: bool

text \<open>The defaults the constructor fills in.\<close>

definition defaultConfig :: EngineConfig where
  "defaultConfig =
     \<lparr> eventChannelCapacity = 512, actionChannelCapacity = 512,
       maxConsecutiveErrors = 5, initialBackoffMs = 100, maxBackoffMs = 30000,
       stopOnCriticalError = False \<rparr>"

section \<open>The supervised task loop\<close>

text \<open>
  \<^verbatim>\<open>runExecutor\<close>, \<^verbatim>\<open>runStrategy\<close> and \<^verbatim>\<open>runCollector\<close> share one loop: a
  \<^verbatim>\<open>while (this.running)\<close> around a \<^verbatim>\<open>try\<close> block (await the next item, hand it to
  the collaborator, reset the counters) and a \<^verbatim>\<open>catch\<close> block (count, back off, maybe
  stop the engine). The three copies differ in their log messages only. What the
  environment does in one iteration is an \<open>iteration\<close>: the running flag is found false,
  the read throws, the read reports the end of the stream, or the read yields a value and
  the collaborator call on it (\<^verbatim>\<open>execute\<close>, \<^verbatim>\<open>processEvent\<close>, \<^verbatim>\<open>eventChannel.send\<close>)
  returns or throws.
\<close>

datatype iteration = RunningFalse | NextThrows thrown | NextDone | NextValue outcome

text \<open>
  The loop's local variables, the list of backoff sleeps it has awaited so far (oldest
  first), and whether it has called \<^verbatim>\<open>this.stop()\<close>.
\<close>

record LoopState =
  consecutiveErrors :: int
  backoffMs :: int
  sleeps :: "int list"
  stopCalled :: bool

datatype control = Continue | Break

definition initialLoopState :: "EngineConfig \<Rightarrow> LoopState" where
  "initialLoopState cfg =
     \<lparr> consecutiveErrors = 0, backoffMs = initialBackoffMs cfg, sleeps = [], stopCalled = False \<rparr>"

text \<open>
  The \<^verbatim>\<open>try\<close> block up to the reset: an exception is the value \<open>Inl e\<close>. (The loop
  condition ends the loop before the block is entered when the running flag is false.)
\<close>

fun tryBlock :: "iteration \<Rightarrow> thrown + control" where
  "tryBlock RunningFalse = Inr Break"
| "tryBlock (NextThrows e) = Inl e"
| "tryBlock NextDone = Inr Break"
| "tryBlock (NextValue Returns) = Inr Continue"
| "tryBlock (NextValue (Throws e)) = Inl e"

text \<open>\<^verbatim>\<open>// Reset backoff on success\<close>\<close>

definition resetOnSuccess :: "EngineConfig \<Rightarrow> LoopState \<Rightarrow> LoopState" where
  "resetOnSuccess cfg s =
     (if consecutiveErrors s > 0
      then s\<lparr>consecutiveErrors := 0, backoffMs := initialBackoffMs cfg\<rparr>
      else s)"

text \<open>\<^verbatim>\<open>Math.min(backoffMs * 2, this.config.maxBackoffMs)\<close>\<close>

definition newBackoff :: "EngineConfig \<Rightarrow> int \<Rightarrow> int" where
  "newBackoff cfg b = min (b * 2) (maxBackoffMs cfg)"

text \<open>The exponential backoff statement of the \<^verbatim>\<open>catch\<close> block, sleep included.\<close>

definition backoffStep :: "EngineConfig \<Rightarrow> LoopState \<Rightarrow> LoopState" where
  "backoffStep cfg s =
     (if consecutiveErrors s > maxConsecutiveErrors cfg
      then (let nb = newBackoff cfg (backoffMs s);
                s' = (if nb \<noteq> backoffMs s then s\<lparr>backoffMs := nb\<rparr> else s)
            in s'\<lparr>sleeps := sleeps s' @ [backoffMs s']\<rparr>)
      else s)"

text \<open>
  The \<^verbatim>\<open>catch\<close> block: count the error; leave on a closed channel; back off; stop the
  engine and leave when configured to and the count is beyond twice the threshold.
\<close>

definition catchBlock :: "EngineConfig \<Rightarrow> thrown \<Rightarrow> LoopState \<Rightarrow> LoopState \<times> control" where
  "catchBlock cfg e s =
     (let s1 = s\<lparr>consecutiveErrors := consecutiveErrors s + 1\<rparr> in
      case e of
        ChannelError CLOSED m \<Rightarrow> (s1, Break)
      | _ \<Rightarrow>
          (let s2 = backoffStep cfg s1 in
           if stopOnCriticalError cfg \<and> consecutiveErrors s2 > maxConsecutiveErrors cfg * 2
           then (s2\<lparr>stopCalled := True\<rparr>, Break)
           else (s2, Continue)))"

text \<open>One pass through the body of the \<^verbatim>\<open>while\<close> loop: the \<^verbatim>\<open>try\<close> and its \<^verbatim>\<open>catch\<close>.\<close>

definition loopBody :: "EngineConfig \<Rightarrow> iteration \<Rightarrow> LoopState \<Rightarrow> LoopState \<times> control" where
  "loopBody cfg it s =
     (case tryBlock it of
        Inr Break \<Rightarrow> (s, Break)
      | Inr Continue \<Rightarrow> (resetOnSuccess cfg s, Continue)
      | Inl e \<Rightarrow> catchBlock cfg e s)"

text \<open>
  The \<^verbatim>\<open>while (this.running)\<close> loop over the iterations the environment offers. The
  result is the loop's state and whether the loop has been left; when the iterations run
  out the loop is still suspended in its read.
\<close>

fun taskLoop :: "EngineConfig \<Rightarrow> iteration list \<Rightarrow> LoopState \<Rightarrow> LoopState \<times> bool" where
  "taskLoop cfg [] s = (s, False)"
| "taskLoop cfg (it # its) s =
     (if it = RunningFalse then (s, True)
      else (case loopBody cfg it s of
              (s', Break) \<Rightarrow> (s', True)
            | (s', Continue) \<Rightarrow> taskLoop cfg its s'))"

text \<open>\<^verbatim>\<open>e instanceof ChannelError && e.type === ChannelErrorType.CLOSED\<close>\<close>

fun isClosed :: "thrown \<Rightarrow> bool" where
  "isClosed (ChannelError CLOSED m) = True"
| "isClosed e = False"

text \<open>
  An iteration that fails: the read or the collaborator call throws something other than
  the closed-channel signal.
\<close>

fun failing :: "iteration \<Rightarrow> bool" where
  "failing (NextThrows e) = (\<not> isClosed e)"
| "failing (NextValue (Throws e)) = (\<not> isClosed e)"
| "failing it = False"








section \<open>The broadcast channel\<close>

text \<open>
  What a read of a stream resolves to: \<^verbatim>\<open>{ done: false, value }\<close> or
  \<^verbatim>\<open>{ done: true }\<close>.
\<close>

datatype 't IteratorResult = Value 't | Done

text \<open>
  Modelled from the spec: \<^verbatim>\<open>utils/broadcast_channel\<close> (the classes
  \<^verbatim>\<open>BroadcastChannel\<close> and its subscription) is not among the sources; the definitions
  of this section follow sections 3 and 4.1 of the specification, with the default
  overflow policy (drop the oldest queued item and count it as lag). A subscription holds
  its queue of undelivered items, the number of receivers suspended in \<^verbatim>\<open>next()\<close>, its
  lag counter, and what its consumer has been handed so far, in order.
\<close>

record 't Subscription =
  buffered :: "'t list"
  waiting :: nat
  lag :: nat
  observed :: "'t IteratorResult list"

text \<open>
  Modelled from the spec: a channel has its capacity (the most items a subscription's
  queue holds), its open/closed flag and its subscriptions, in the order of their
  registration.
\<close>

record 't BroadcastChannel =
  capacity :: int
  closedFlag :: bool
  subscriptions :: "'t Subscription list"

text \<open>
  Modelled from the spec: the channel as the engine creates it, open and without
  subscriptions.
\<close>

definition newBroadcastChannel :: "int \<Rightarrow> 't BroadcastChannel" where
  "newBroadcastChannel cap = \<lparr> capacity = cap, closedFlag = False, subscriptions = [] \<rparr>"

text \<open>Modelled from the spec: a subscription as \<^verbatim>\<open>subscribe()\<close> creates it.\<close>

definition newSubscription :: "'t Subscription" where
  "newSubscription = \<lparr> buffered = [], waiting = 0, lag = 0, observed = [] \<rparr>"

text \<open>
  Modelled from the spec: \<^verbatim>\<open>subscribe()\<close> registers a new subscription that receives
  every item sent after the call (no replay). The result is the subscription's position
  in the channel and the channel.
\<close>

definition subscribe :: "'t BroadcastChannel \<Rightarrow> nat \<times> 't BroadcastChannel" where
  "subscribe ch =
     (length (subscriptions ch),
      ch\<lparr>subscriptions := subscriptions ch @ [newSubscription]\<rparr>)"

text \<open>
  Modelled from the spec: what \<^verbatim>\<open>send\<close> does to one subscription. A suspended receiver
  is woken with the item; otherwise the item is queued, and when the queue then exceeds
  the capacity the oldest queued item is dropped and the lag counter incremented.
\<close>

definition offer :: "int \<Rightarrow> 't \<Rightarrow> 't Subscription \<Rightarrow> 't Subscription" where
  "offer cap x s =
     (if waiting s > 0
      then s\<lparr>waiting := waiting s - 1, observed := observed s @ [Value x]\<rparr>
      else (let q = buffered s @ [x] in
            if int (length q) > cap then s\<lparr>buffered := tl q, lag := lag s + 1\<rparr>
            else s\<lparr>buffered := q\<rparr>))"

text \<open>
  Modelled from the spec: \<^verbatim>\<open>send(item)\<close> fails with \<^verbatim>\<open>ChannelClosed\<close> on a closed
  channel and otherwise offers the item to every subscription.
\<close>

definition send :: "'t \<Rightarrow> 't BroadcastChannel \<Rightarrow> thrown + 't BroadcastChannel" where
  "send x ch =
     (if closedFlag ch then Inl (ChannelError CLOSED ''Channel is closed'')
      else Inr (ch\<lparr>subscriptions := map (offer (capacity ch) x) (subscriptions ch)\<rparr>))"

text \<open>
  Modelled from the spec: \<^verbatim>\<open>close()\<close> is idempotent; it marks the channel closed, wakes
  every suspended receiver with the end of the stream and clears all buffered items.
\<close>

definition close :: "'t BroadcastChannel \<Rightarrow> 't BroadcastChannel" where
  "close ch =
     (if closedFlag ch then ch
      else ch\<lparr>closedFlag := True,
              subscriptions :=
                map (\<lambda>s. s\<lparr>buffered := [], waiting := 0,
                            observed := observed s @ replicate (waiting s) Done\<rparr>)
                  (subscriptions ch)\<rparr>)"

text \<open>
  Modelled from the spec: \<^verbatim>\<open>next()\<close> on subscription \<open>i\<close> (\<open>next\<close> is a keyword of
  Isabelle, hence the name). A non-empty queue yields its
  oldest item; an empty queue suspends the caller on an open channel and yields the end of
  the stream on a closed one. (A position that names no subscription changes nothing.)
\<close>

definition receive :: "nat \<Rightarrow> 't BroadcastChannel \<Rightarrow> 't BroadcastChannel" where
  "receive i ch =
     (if i < length (subscriptions ch)
      then (let s = subscriptions ch ! i;
                s' = (case buffered s of
                        x # q \<Rightarrow> s\<lparr>buffered := q, observed := observed s @ [Value x]\<rparr>
                      | [] \<Rightarrow> if closedFlag ch then s\<lparr>observed := observed s @ [Done]\<rparr>
                              else s\<lparr>waiting := waiting s + 1\<rparr>)
            in ch\<lparr>subscriptions := (subscriptions ch)[i := s']\<rparr>)
      else ch)"

text \<open>
  A schedule interleaves sends with the reads of the individual consumers; running it from
  a channel gives the channel afterwards and the items that were sent, in send order. A
  send the channel refuses leaves it as it is.
\<close>

datatype 't channel_op = Send 't | Next nat

fun channelStep :: "'t channel_op \<Rightarrow> 't BroadcastChannel \<Rightarrow> 't BroadcastChannel" where
  "channelStep (Send x) ch = (case send x ch of Inl e \<Rightarrow> ch | Inr ch' \<Rightarrow> ch')"
| "channelStep (Next i) ch = receive i ch"

fun runSchedule :: "'t channel_op list \<Rightarrow> 't BroadcastChannel \<Rightarrow> 't BroadcastChannel" where
  "runSchedule [] ch = ch"
| "runSchedule (op # ops) ch = runSchedule ops (channelStep op ch)"

fun sent :: "'t channel_op list \<Rightarrow> 't list" where
  "sent [] = []"
| "sent (Send x # ops) = x # sent ops"
| "sent (Next i # ops) = sent ops"

text \<open>The items a consumer has been handed, in order.\<close>

fun items :: "'t IteratorResult list \<Rightarrow> 't list" where
  "items [] = []"
| "items (Value x # rs) = x # items rs"
| "items (Done # rs) = items rs"

text \<open>
  A channel after \<open>k\<close> further calls of \<^verbatim>\<open>subscribe()\<close>, and a schedule on two
  subscriptions in which the first consumer reads before every send and the second only
  after both sends.
\<close>

definition subscribed :: "nat \<Rightarrow> 't BroadcastChannel \<Rightarrow> 't BroadcastChannel" where
  "subscribed k ch = ((\<lambda>c. snd (subscribe c)) ^^ k) ch"

definition slowSubscriberSchedule :: "nat channel_op list" where
  "slowSubscriberSchedule = [Next 0, Send 1, Next 0, Send 2, Next 1, Next 1]"


text \<open>
  What holds of every subscription of an open channel once the items \<open>xs\<close> have been
  sent: a suspended receiver means an empty queue; without lag, what was handed over and
  what is queued are the items sent, in order; lag needs more sends than the capacity.
\<close>

definition subInv :: "int \<Rightarrow> 't list \<Rightarrow> 't Subscription \<Rightarrow> bool" where
  "subInv cap xs s =
     ((waiting s > 0 \<longrightarrow> buffered s = []) \<and>
      (lag s = 0 \<longrightarrow> items (observed s) @ buffered s = xs) \<and>
      length (buffered s) \<le> length xs \<and>
      (int (length xs) \<le> cap \<longrightarrow> lag s = 0))"

text \<open>
  What the overflow policy keeps, for every subscription of an open channel once the
  items \<open>xs\<close> have been sent: the queue holds the most recent items sent, never more than
  the capacity; what was handed over followed by what is queued is a subsequence of the
  items sent; every item sent has been handed over, is queued, or is counted as lag.
\<close>

definition keepsNewest :: "int \<Rightarrow> 't list \<Rightarrow> 't Subscription \<Rightarrow> bool" where
  "keepsNewest cap xs s =
     (suffix (buffered s) xs \<and>
      subseq (items (observed s) @ buffered s) xs \<and>
      length (items (observed s)) + length (buffered s) + lag s = length xs \<and>
      int (length (buffered s)) \<le> max cap 0)"

definition chanInv :: "'t list \<Rightarrow> 't BroadcastChannel \<Rightarrow> bool" where
  "chanInv xs ch =
     (\<not> closedFlag ch \<and>
      list_all (\<lambda>s. subInv (capacity ch) xs s \<and> keepsNewest (capacity ch) xs s)
        (subscriptions ch))"

text \<open>
  What holds of a subscription whose consumer has not called \<^verbatim>\<open>next()\<close>: nothing has
  been handed over, and the queue has filled up to the capacity.
\<close>

definition unreadInv :: "int \<Rightarrow> 't list \<Rightarrow> 't Subscription \<Rightarrow> bool" where
  "unreadInv cap xs s =
     (waiting s = 0 \<and> observed s = [] \<and>
      int (length (buffered s)) = min (int (length xs)) cap)"

text \<open>
  A schedule on two subscriptions of which the second never reads, for a channel of
  capacity 2.
\<close>

definition unreadSubscriberSchedule :: "nat channel_op list" where
  "unreadSubscriberSchedule = [Send 1, Next 0, Send 2, Send 3, Next 0]"

section \<open>The engine\<close>

text \<open>
  The collaborators, as far as the engine looks at them: a name, and for a strategy the
  optional \<^verbatim>\<open>syncState\<close> hook (\<open>None\<close>: the strategy has none; otherwise what awaiting
  it gives). What else happens while a hook is awaited is the subject of \<open>meanwhile\<close>
  below.
\<close>

datatype Collector = Collector (collectorName: string)

datatype Strategy = Strategy (strategyName: string) (syncState: "outcome option")

datatype Executor = Executor (executorName: string)

text \<open>
  A started task loop: \<^verbatim>\<open>runExecutor(executor, receiver)\<close>,
  \<^verbatim>\<open>runStrategy(strategy, eventReceiver, actionSubmitter)\<close>, \<^verbatim>\<open>runCollector(collector)\<close>.
  A receiver is the position of its subscription in its channel.
\<close>

datatype task = RunExecutor Executor nat | RunStrategy Strategy nat | RunCollector Collector

text \<open>The participant a task loop drives.\<close>

datatype participant = OfExecutor Executor | OfStrategy Strategy | OfCollector Collector

fun participantOf :: "task \<Rightarrow> participant" where
  "participantOf (RunExecutor x r) = OfExecutor x"
| "participantOf (RunStrategy s r) = OfStrategy s"
| "participantOf (RunCollector c) = OfCollector c"

text \<open>What the engine does that others can see, in the order it does it.\<close>

datatype effect =
    RunningSet bool
  | SyncStateCalled Strategy
  | Spawned task
  | EventChannelClosed nat
  | ActionChannelClosed nat

text \<open>
  The fields of an \<^verbatim>\<open>Engine\<close> object, and around it: the channel objects it has created
  (a channel reference is a position in \<open>eventHeap\<close> or \<open>actionHeap\<close>; the task loops
  keep their subscriptions to these objects when the engine drops its references), the
  static registry \<^verbatim>\<open>Engine.runningEngines\<close>, in which this engine goes by \<open>engineId\<close>,
  and the trace of its effects.
\<close>

record ('e, 'a) World =
  collectors :: "Collector list"
  strategies :: "Strategy list"
  executors :: "Executor list"
  config :: EngineConfig
  running :: bool
  tasks :: "task list"
  eventChannel :: "nat option"
  actionChannel :: "nat option"
  eventHeap :: "'e BroadcastChannel list"
  actionHeap :: "'a BroadcastChannel list"
  runningEngines :: "nat list"
  engineId :: nat
  trace :: "effect list"

text \<open>A freshly constructed engine with the given configuration.\<close>

definition newEngine :: "EngineConfig \<Rightarrow> ('e, 'a) World" where
  "newEngine cfg =
     \<lparr> collectors = [], strategies = [], executors = [], config = cfg, running = False,
       tasks = [], eventChannel = None, actionChannel = None, eventHeap = [],
       actionHeap = [], runningEngines = [], engineId = 0, trace = [] \<rparr>"

definition addCollector :: "Collector \<Rightarrow> ('e, 'a) World \<Rightarrow> ('e, 'a) World" where
  "addCollector c w = w\<lparr>collectors := collectors w @ [c]\<rparr>"

definition addStrategy :: "Strategy \<Rightarrow> ('e, 'a) World \<Rightarrow> ('e, 'a) World" where
  "addStrategy s w = w\<lparr>strategies := strategies w @ [s]\<rparr>"

definition addExecutor :: "Executor \<Rightarrow> ('e, 'a) World \<Rightarrow> ('e, 'a) World" where
  "addExecutor x w = w\<lparr>executors := executors w @ [x]\<rparr>"

definition isRunning :: "('e, 'a) World \<Rightarrow> bool" where
  "isRunning w = running w"

text \<open>
  Calling a method on a channel field that holds \<^verbatim>\<open>undefined\<close> throws a
  \<^verbatim>\<open>TypeError\<close> (the wording of its message is the runtime's).
\<close>

definition typeError :: thrown where
  "typeError = TypeError ''Cannot read properties of undefined''"

text \<open>\<^verbatim>\<open>subscribe()\<close> on the channel object at a position of a heap.\<close>

definition subscribeAt :: "nat \<Rightarrow> 't BroadcastChannel list \<Rightarrow> nat \<times> 't BroadcastChannel list" where
  "subscribeAt a h =
     (if a < length h then (fst (subscribe (h ! a)), h[a := snd (subscribe (h ! a))])
      else (0, h))"

text \<open>\<^verbatim>\<open>close()\<close> on the channel object at a position of a heap.\<close>

definition closeAt :: "nat \<Rightarrow> 't BroadcastChannel list \<Rightarrow> 't BroadcastChannel list" where
  "closeAt a h = (if a < length h then h[a := close (h ! a)] else h)"

text \<open>
  Promises in logical time: the time (in milliseconds, counted from the call of
  \<^verbatim>\<open>stop\<close>) at which a promise settles, or \<open>None\<close> when it never does. A timer set at
  \<open>now\<close> fires after its delay, at once when the delay is negative and after 1 ms when
  the delay is beyond \<open>2\<^sup>3\<^sup>1 - 1\<close> ms, which the runtime's timers cannot hold; a
  combinator built at \<open>now\<close> cannot settle earlier.
\<close>

type_synonym promise = "rat option"

definition timerDelay :: "rat \<Rightarrow> rat" where
  "timerDelay delay = (if delay > 2147483647 then 1 else max 0 delay)"

definition setTimeout :: "rat \<Rightarrow> rat \<Rightarrow> promise" where
  "setTimeout now delay = Some (now + timerDelay delay)"

definition settledFrom :: "rat \<Rightarrow> promise \<Rightarrow> promise" where
  "settledFrom now p = map_option (max now) p"

fun earliest :: "promise \<Rightarrow> promise \<Rightarrow> promise" where
  "earliest None q = q"
| "earliest (Some a) None = Some a"
| "earliest (Some a) (Some b) = Some (min a b)"

fun latest :: "promise \<Rightarrow> promise \<Rightarrow> promise" where
  "latest None q = None"
| "latest (Some a) None = None"
| "latest (Some a) (Some b) = Some (max a b)"

text \<open>\<^verbatim>\<open>Promise.race\<close> settles with the first of its promises, and never on an empty list.\<close>

definition Promise_race :: "rat \<Rightarrow> promise list \<Rightarrow> promise" where
  "Promise_race now ps = foldr earliest (map (settledFrom now) ps) None"

text \<open>\<^verbatim>\<open>Promise.all\<close> settles once all of its promises have, at once on an empty list.\<close>

definition Promise_all :: "rat \<Rightarrow> promise list \<Rightarrow> promise" where
  "Promise_all now ps = foldr latest (map (settledFrom now) ps) (Some now)"

definition cleanupResources :: "('e, 'a) World \<Rightarrow> ('e, 'a) World" where
  "cleanupResources w = w\<lparr>eventChannel := None, actionChannel := None, tasks := []\<rparr>"

text \<open>\<^verbatim>\<open>// Close the channels to signal tasks to stop\<close>\<close>

definition closeChannels :: "('e, 'a) World \<Rightarrow> ('e, 'a) World" where
  "closeChannels w =
     (let w1 = (case eventChannel w of
                  None \<Rightarrow> w
                | Some ec \<Rightarrow> w\<lparr>eventHeap := closeAt ec (eventHeap w),
                               trace := trace w @ [EventChannelClosed ec]\<rparr>)
      in case actionChannel w1 of
           None \<Rightarrow> w1
         | Some ac \<Rightarrow> w1\<lparr>actionHeap := closeAt ac (actionHeap w1),
                        trace := trace w1 @ [ActionChannelClosed ac]\<rparr>)"

text \<open>
  When \<^verbatim>\<open>shutdownPromise\<close> settles: 100 ms after the call the task promises are raced,
  each against a timer of \<^verbatim>\<open>Math.min(timeoutMs / 2, 2000)\<close>, and all of them together
  against one more such timer. \<open>exits\<close> gives the time at which a task's promise settles.
\<close>

definition shutdownPromise :: "rat \<Rightarrow> (task \<Rightarrow> promise) \<Rightarrow> task list \<Rightarrow> promise" where
  "shutdownPromise timeoutMs exits ts =
     (let taskTimeout = min (timeoutMs / 2) 2000 in
      Promise_race 100
        [Promise_all 100
           (map (\<lambda>t. Promise_race 100 [exits t, setTimeout 100 taskTimeout]) ts),
         setTimeout 100 taskTimeout])"

text \<open>
  \<^verbatim>\<open>stop(timeoutMs)\<close>: when its promise settles, and the world at that moment (the
  engine is taken not to be run again while \<^verbatim>\<open>stop\<close> is awaiting). The timer
  of \<^verbatim>\<open>timeoutPromise\<close> runs \<^verbatim>\<open>forceCleanup\<close>, which empties \<^verbatim>\<open>this.tasks\<close>; the
  callback that reads \<^verbatim>\<open>this.tasks\<close> runs at 100 ms, after that timer when
  it fires within 100 ms.
\<close>

definition stop :: "rat \<Rightarrow> (task \<Rightarrow> promise) \<Rightarrow> ('e, 'a) World \<Rightarrow> promise \<times> ('e, 'a) World" where
  "stop timeoutMs exits w =
     (if \<not> running w then (Some 0, w)
      else
        (let w1 = w\<lparr>running := False, trace := trace w @ [RunningSet False]\<rparr>;
             timeoutPromise = setTimeout 0 timeoutMs;
             w2 = closeChannels w1;
             tasksRead = (if timerDelay timeoutMs \<le> 100 then [] else tasks w2);
             settles = Promise_race 0 [shutdownPromise timeoutMs exits tasksRead, timeoutPromise];
             w3 = cleanupResources w2;
             w4 = w3\<lparr>runningEngines := remove1 (engineId w3) (runningEngines w3)\<rparr>
         in (settles, w4)))"

text \<open>
  One pass of \<^verbatim>\<open>for (const executor of this.executors)\<close>: subscribe to the action
  channel, start the loop, push its promise.
\<close>

definition spawnExecutor :: "Executor \<Rightarrow> ('e, 'a) World \<Rightarrow> thrown option \<times> ('e, 'a) World" where
  "spawnExecutor x w =
     (case actionChannel w of
        None \<Rightarrow> (Some typeError, w)
      | Some ac \<Rightarrow>
          (let (receiver, h) = subscribeAt ac (actionHeap w);
               t = RunExecutor x receiver
           in (None, w\<lparr>actionHeap := h, tasks := tasks w @ [t],
                        trace := trace w @ [Spawned t]\<rparr>)))"

fun spawnExecutors :: "Executor list \<Rightarrow> ('e, 'a) World \<Rightarrow> thrown option \<times> ('e, 'a) World" where
  "spawnExecutors [] w = (None, w)"
| "spawnExecutors (x # xs) w =
     (case spawnExecutor x w of
        (Some e, w') \<Rightarrow> (Some e, w')
      | (None, w') \<Rightarrow> spawnExecutors xs w')"

text \<open>
  \<^verbatim>\<open>run()\<close> is suspended at \<^verbatim>\<open>await strategy.syncState(actionSubmitter)\<close>, and the
  rest of the program runs meanwhile. What matters of it to \<^verbatim>\<open>run()\<close> is a
  \<^verbatim>\<open>stop(timeoutMs)\<close> of this engine, called by the \<^verbatim>\<open>SIGINT\<close> handler or by a task
  loop on its critical-error path, that has settled by the time the hook does: for each
  strategy, \<open>None\<close> when there is no such call while its hook is awaited, otherwise the
  arguments of \<open>stop\<close>. In \<open>undisturbed\<close> no hook is awaited across a \<^verbatim>\<open>stop()\<close>.
\<close>

type_synonym meanwhile = "Strategy \<Rightarrow> (rat \<times> (task \<Rightarrow> promise)) option"

definition undisturbed :: meanwhile where
  "undisturbed = (\<lambda>s. None)"

definition await :: "(rat \<times> (task \<Rightarrow> promise)) option \<Rightarrow> ('e, 'a) World \<Rightarrow> ('e, 'a) World" where
  "await m w = (case m of None \<Rightarrow> w | Some (timeoutMs, exits) \<Rightarrow> snd (stop timeoutMs exits w))"

text \<open>
  One pass of \<^verbatim>\<open>for (const strategy of this.strategies)\<close>: subscribe to the event
  channel, await the \<^verbatim>\<open>syncState\<close> hook when there is one (a throw is rethrown as
  \<^verbatim>\<open>Failed to sync state for ...\<close>), then start the loop and push its promise.
\<close>

definition spawnStrategy ::
  "meanwhile \<Rightarrow> Strategy \<Rightarrow> ('e, 'a) World \<Rightarrow> thrown option \<times> ('e, 'a) World" where
  "spawnStrategy env s w =
     (case eventChannel w of
        None \<Rightarrow> (Some typeError, w)
      | Some ec \<Rightarrow>
          (let (eventReceiver, h) = subscribeAt ec (eventHeap w);
               w1 = w\<lparr>eventHeap := h\<rparr>;
               t = RunStrategy s eventReceiver
           in case syncState s of
                None \<Rightarrow>
                  (None, w1\<lparr>tasks := tasks w1 @ [t], trace := trace w1 @ [Spawned t]\<rparr>)
              | Some result \<Rightarrow>
                  (let w2 = await (env s) (w1\<lparr>trace := trace w1 @ [SyncStateCalled s]\<rparr>)
                   in case result of
                        Returns \<Rightarrow>
                          (None, w2\<lparr>tasks := tasks w2 @ [t], trace := trace w2 @ [Spawned t]\<rparr>)
                      | Throws e \<Rightarrow>
                          (Some (Error (''Failed to sync state for '' @ strategyName s @
                                        '': '' @ toString e)),
                           w2))))"

fun spawnStrategies ::
  "meanwhile \<Rightarrow> Strategy list \<Rightarrow> ('e, 'a) World \<Rightarrow> thrown option \<times> ('e, 'a) World" where
  "spawnStrategies env [] w = (None, w)"
| "spawnStrategies env (s # ss) w =
     (case spawnStrategy env s w of
        (Some e, w') \<Rightarrow> (Some e, w')
      | (None, w') \<Rightarrow> spawnStrategies env ss w')"

text \<open>One pass of \<^verbatim>\<open>for (const collector of this.collectors)\<close>.\<close>

definition spawnCollector :: "Collector \<Rightarrow> ('e, 'a) World \<Rightarrow> ('e, 'a) World" where
  "spawnCollector c w =
     w\<lparr>tasks := tasks w @ [RunCollector c], trace := trace w @ [Spawned (RunCollector c)]\<rparr>"

fun spawnCollectors :: "Collector list \<Rightarrow> ('e, 'a) World \<Rightarrow> ('e, 'a) World" where
  "spawnCollectors [] w = w"
| "spawnCollectors (c # cs) w = spawnCollectors cs (spawnCollector c w)"

text \<open>
  The part of \<^verbatim>\<open>run()\<close> between the checks and the loops: set the flag, register the
  engine, create the two channels, empty the task list.
\<close>

definition startRun :: "('e, 'a) World \<Rightarrow> ('e, 'a) World" where
  "startRun w =
     w\<lparr>running := True,
       runningEngines := runningEngines w @ [engineId w],
       eventHeap := eventHeap w @ [newBroadcastChannel (eventChannelCapacity (config w))],
       eventChannel := Some (length (eventHeap w)),
       actionHeap := actionHeap w @ [newBroadcastChannel (actionChannelCapacity (config w))],
       actionChannel := Some (length (actionHeap w)),
       tasks := [],
       trace := trace w @ [RunningSet True]\<rparr>"

text \<open>
  \<^verbatim>\<open>run()\<close>: what it throws (\<open>Inl\<close>) or the task promises it returns (\<open>Inr\<close>), and the
  world afterwards, given what happens while it awaits the hooks.
\<close>

definition run :: "meanwhile \<Rightarrow> ('e, 'a) World \<Rightarrow> (thrown + task list) \<times> ('e, 'a) World" where
  "run env w =
     (if executors w = [] then (Inl (Error ''No executors''), w)
      else if collectors w = [] then (Inl (Error ''No collectors''), w)
      else if strategies w = [] then (Inl (Error ''No strategies''), w)
      else if running w then (Inl (Error ''Engine is already running''), w)
      else
        (case spawnExecutors (executors w) (startRun w) of
           (Some e, w1) \<Rightarrow> (Inl e, w1)
         | (None, w1) \<Rightarrow>
             (case spawnStrategies env (strategies w1) w1 of
                (Some e, w2) \<Rightarrow> (Inl e, w2)
              | (None, w2) \<Rightarrow>
                  (let w3 = spawnCollectors (collectors w2) w2
                   in (Inr (tasks w3), w3)))))"

text \<open>
  The spec's error taxonomy, read off the messages \<^verbatim>\<open>run()\<close> throws: a configuration
  error is one of its four validation errors, a state-sync error is the rethrown failure
  of a \<^verbatim>\<open>syncState\<close> hook.
\<close>

fun isConfigurationError :: "thrown \<Rightarrow> bool" where
  "isConfigurationError (Error m) =
     (m = ''No executors'' \<or> m = ''No collectors'' \<or> m = ''No strategies'' \<or>
      m = ''Engine is already running'')"
| "isConfigurationError (TypeError m) = False"
| "isConfigurationError (ChannelError t m) = False"


text \<open>
  For stating what \<^verbatim>\<open>run()\<close> leaves behind: the tasks of a list of participants whose
  receivers are numbered from \<open>k\<close> on; a channel heap in which \<open>n\<close> more subscriptions
  have been registered on the channel at \<open>a\<close>; whether a strategy's hook throws; and the
  effects of the strategy loop of \<^verbatim>\<open>run()\<close> over strategies whose hooks do not throw.
\<close>

definition numbered :: "('x \<Rightarrow> nat \<Rightarrow> task) \<Rightarrow> nat \<Rightarrow> 'x list \<Rightarrow> task list" where
  "numbered f k xs = map (\<lambda>(i, x). f x i) (enumerate k xs)"

definition withSubscribers :: "nat \<Rightarrow> nat \<Rightarrow> 't BroadcastChannel list \<Rightarrow> 't BroadcastChannel list" where
  "withSubscribers a n h =
     h[a := (h ! a)\<lparr>subscriptions := subscriptions (h ! a) @ replicate n newSubscription\<rparr>]"

fun throwsOnSync :: "Strategy \<Rightarrow> bool" where
  "throwsOnSync (Strategy n (Some (Throws e))) = True"
| "throwsOnSync s = False"

fun strategyEvents :: "nat \<Rightarrow> Strategy list \<Rightarrow> effect list" where
  "strategyEvents k [] = []"
| "strategyEvents k (s # ss) =
     (if syncState s = None then [] else [SyncStateCalled s]) @
     [Spawned (RunStrategy s k)] @ strategyEvents (Suc k) ss"

text \<open>
  The world \<^verbatim>\<open>run()\<close> leaves behind once it is past its checks: \<open>n\<close> event
  subscriptions, one action subscription per executor, the tasks \<open>ts\<close>, the effects
  \<open>evs\<close>.
\<close>

definition started :: "('e, 'a) World \<Rightarrow> nat \<Rightarrow> task list \<Rightarrow> effect list \<Rightarrow> ('e, 'a) World" where
  "started w n ts evs =
     w\<lparr>running := True,
       runningEngines := runningEngines w @ [engineId w],
       eventHeap := eventHeap w @
         [(newBroadcastChannel (eventChannelCapacity (config w)))
            \<lparr>subscriptions := replicate n newSubscription\<rparr>],
       eventChannel := Some (length (eventHeap w)),
       actionHeap := actionHeap w @
         [(newBroadcastChannel (actionChannelCapacity (config w)))
            \<lparr>subscriptions := replicate (length (executors w)) newSubscription\<rparr>],
       actionChannel := Some (length (actionHeap w)),
       tasks := ts,
       trace := trace w @ [RunningSet True] @ evs\<rparr>"

text \<open>
  Two engines to run: one with a collector, a strategy and an executor, and the same with
  a second strategy whose \<^verbatim>\<open>syncState\<close> hook throws.
\<close>

definition exampleEngine :: "(nat, string) World" where
  "exampleEngine =
     addExecutor (Executor ''printer'')
       (addStrategy (Strategy ''doubler'' None)
          (addCollector (Collector ''interval'') (newEngine defaultConfig)))"

definition failingSyncEngine :: "(nat, string) World" where
  "failingSyncEngine =
     addStrategy (Strategy ''late'' (Some (Throws (Error ''boom'')))) exampleEngine"



section \<open>Collector streams\<close>

text \<open>
  The streams that \<^verbatim>\<open>IntervalCollectorBun\<close>, \<^verbatim>\<open>BlockCollectorBun\<close> and
  \<^verbatim>\<open>BlockCollector\<close> return share their state and their code: the \<^verbatim>\<open>queue\<close> of
  buffered items, the \<^verbatim>\<open>resolvers\<close> of the calls of \<^verbatim>\<open>next()\<close> that are waiting (a
  resolver is named by the number of its call), and the \<^verbatim>\<open>done\<close> flag. \<open>settled\<close>
  lists the calls of \<^verbatim>\<open>next()\<close> that have been answered, with their answers, in the
  order in which they were answered; \<open>calls\<close> counts the calls of \<^verbatim>\<open>next()\<close> so far.
\<close>

record 'a Stream =
  queue :: "'a list"
  resolvers :: "nat list"
  doneFlag :: bool
  settled :: "(nat \<times> 'a IteratorResult) list"
  calls :: nat

definition initialStream :: "'a Stream" where
  "initialStream = \<lparr> queue = [], resolvers = [], doneFlag = False, settled = [], calls = 0 \<rparr>"

text \<open>
  The handlers' common tail: hand the item to the oldest waiting resolver, or push it onto
  the queue and drop the oldest queued item when the queue has grown beyond its limit.
\<close>

definition deliver :: "int \<Rightarrow> 'a \<Rightarrow> ('a, 'z) Stream_scheme \<Rightarrow> ('a, 'z) Stream_scheme" where
  "deliver maxQueueSize x s =
     (case resolvers s of
        r # rs \<Rightarrow> s\<lparr>resolvers := rs, settled := settled s @ [(r, Value x)]\<rparr>
      | [] \<Rightarrow>
          (let q = queue s @ [x] in
           if int (length q) > maxQueueSize then s\<lparr>queue := tl q\<rparr> else s\<lparr>queue := q\<rparr>))"

text \<open>\<^verbatim>\<open>next()\<close>\<close>

definition nextCall :: "('a, 'z) Stream_scheme \<Rightarrow> ('a, 'z) Stream_scheme" where
  "nextCall s =
     (let p = calls s; s1 = s\<lparr>calls := calls s + 1\<rparr> in
      if doneFlag s then s1\<lparr>settled := settled s @ [(p, Done)]\<rparr>
      else (case queue s of
              x # q \<Rightarrow> s1\<lparr>queue := q, settled := settled s @ [(p, Value x)]\<rparr>
            | [] \<Rightarrow> s1\<lparr>resolvers := resolvers s @ [p]\<rparr>))"

text \<open>
  \<^verbatim>\<open>cleanup\<close>, which \<^verbatim>\<open>return()\<close> calls: mark as done, resolve the waiting resolvers
  with done, clear the queue.
\<close>

definition cleanup :: "('a, 'z) Stream_scheme \<Rightarrow> ('a, 'z) Stream_scheme" where
  "cleanup s =
     s\<lparr>doneFlag := True,
       settled := settled s @ map (\<lambda>r. (r, Done)) (resolvers s),
       resolvers := [],
       queue := []\<rparr>"

text \<open>\<^verbatim>\<open>onExit\<close> of the worker process: mark as done, resolve the waiting resolvers with done.\<close>

definition onExit :: "('a, 'z) Stream_scheme \<Rightarrow> ('a, 'z) Stream_scheme" where
  "onExit s =
     s\<lparr>doneFlag := True,
       settled := settled s @ map (\<lambda>r. (r, Done)) (resolvers s),
       resolvers := []\<rparr>"

text \<open>
  What happens to a stream: an item arrives (an IPC message with a timestamp or a block, a
  block of the subscription, a block a poll has fetched), the consumer calls \<^verbatim>\<open>next()\<close>
  or \<^verbatim>\<open>return()\<close>, the worker process exits.
\<close>

datatype 'a stream_event = Incoming 'a | CallNext | CallReturn | WorkerExit

text \<open>\<^verbatim>\<open>IntervalCollectorBun.getEventStream\<close>: the queue is limited to 100 items.\<close>

fun intervalBunStep :: "'a stream_event \<Rightarrow> 'a Stream \<Rightarrow> 'a Stream" where
  "intervalBunStep (Incoming x) s = deliver 100 x s"
| "intervalBunStep CallNext s = nextCall s"
| "intervalBunStep CallReturn s = cleanup s"
| "intervalBunStep WorkerExit s = onExit s"

text \<open>
  A block number as JavaScript may hold it: \<^verbatim>\<open>undefined\<close>, \<^verbatim>\<open>null\<close> or a
  \<^verbatim>\<open>bigint\<close>. The rest of a block is a tag.
\<close>

datatype blocknum = Undefined | Null | Num int

datatype Block = Block (number: blocknum) (blockTag: nat)

text \<open>
  JavaScript's \<^verbatim>\<open>a > b\<close> on such values: \<^verbatim>\<open>null\<close> counts as 0, and a comparison with
  \<^verbatim>\<open>undefined\<close> is false.
\<close>

fun gt :: "blocknum \<Rightarrow> blocknum \<Rightarrow> bool" where
  "gt (Num a) (Num b) = (a > b)"
| "gt (Num a) Null = (a > 0)"
| "gt Null (Num b) = (0 > b)"
| "gt Null Null = False"
| "gt Undefined b = False"
| "gt a Undefined = False"

text \<open>\<^verbatim>\<open>BlockCollectorBun.getEventStream\<close>: the blocks arrive filtered by the worker.\<close>

fun blockBunStep :: "int \<Rightarrow> Block stream_event \<Rightarrow> Block Stream \<Rightarrow> Block Stream" where
  "blockBunStep maxQueueSize (Incoming b) s = deliver maxQueueSize b s"
| "blockBunStep maxQueueSize CallNext s = nextCall s"
| "blockBunStep maxQueueSize CallReturn s = cleanup s"
| "blockBunStep maxQueueSize WorkerExit s = onExit s"

text \<open>The streams of \<^verbatim>\<open>BlockCollector\<close> also keep \<^verbatim>\<open>lastBlockNumber\<close>.\<close>

record 'a NumberedStream = "'a Stream" +
  lastBlockNumber :: blocknum

definition initialNumberedStream :: "'a NumberedStream" where
  "initialNumberedStream =
     \<lparr> queue = [], resolvers = [], doneFlag = False, settled = [], calls = 0,
       lastBlockNumber = Null \<rparr>"

text \<open>
  \<^verbatim>\<open>onBlock\<close> of the WebSocket subscription in \<^verbatim>\<open>BlockCollector.getEventStream\<close>. (The
  abort controller is replaced by a fresh one within \<^verbatim>\<open>cleanupFn\<close>, so its signal is
  never found aborted.)
\<close>

definition onBlock :: "int \<Rightarrow> Block \<Rightarrow> Block NumberedStream \<Rightarrow> Block NumberedStream" where
  "onBlock maxQueueSize block s =
     (if doneFlag s then s
      else if number block = Undefined then s
      else if lastBlockNumber s = Null \<or> gt (number block) (lastBlockNumber s)
      then deliver maxQueueSize block (s\<lparr>lastBlockNumber := number block\<rparr>)
      else s)"

text \<open>
  \<^verbatim>\<open>pollBlock\<close> of \<^verbatim>\<open>getPollingEventStream\<close>, from the point at which
  \<^verbatim>\<open>getBlock\<close> has returned the block. (Its timer and its backoff decide when polls
  happen, not what a poll does with its block.)
\<close>

definition pollBlock :: "int \<Rightarrow> Block \<Rightarrow> Block NumberedStream \<Rightarrow> Block NumberedStream" where
  "pollBlock maxQueueSize block s =
     (if doneFlag s then s
      else if lastBlockNumber s = Null \<or> gt (number block) (lastBlockNumber s)
      then deliver maxQueueSize block (s\<lparr>lastBlockNumber := number block\<rparr>)
      else s)"

text \<open>The two streams of \<^verbatim>\<open>BlockCollector\<close>; they have no worker process.\<close>

fun webSocketStep :: "int \<Rightarrow> Block stream_event \<Rightarrow> Block NumberedStream \<Rightarrow> Block NumberedStream" where
  "webSocketStep maxQueueSize (Incoming b) s = onBlock maxQueueSize b s"
| "webSocketStep maxQueueSize CallNext s = nextCall s"
| "webSocketStep maxQueueSize CallReturn s = cleanup s"
| "webSocketStep maxQueueSize WorkerExit s = s"

fun pollingStep :: "int \<Rightarrow> Block stream_event \<Rightarrow> Block NumberedStream \<Rightarrow> Block NumberedStream" where
  "pollingStep maxQueueSize (Incoming b) s = pollBlock maxQueueSize b s"
| "pollingStep maxQueueSize CallNext s = nextCall s"
| "pollingStep maxQueueSize CallReturn s = cleanup s"
| "pollingStep maxQueueSize WorkerExit s = s"

text \<open>
  The worker of \<^verbatim>\<open>BlockCollectorBun\<close>: its \<^verbatim>\<open>lastBlockNumber\<close> and the blocks
  \<^verbatim>\<open>sendBlock\<close> has sent to the parent process, oldest first.
\<close>

record Worker =
  workerLastBlockNumber :: blocknum
  sentBlocks :: "Block list"

definition initialWorker :: Worker where
  "initialWorker = \<lparr> workerLastBlockNumber = Null, sentBlocks = [] \<rparr>"

definition sendBlock :: "Block \<Rightarrow> Worker \<Rightarrow> Worker" where
  "sendBlock block w =
     (if number block = Undefined \<or> number block = Null then w
      else if workerLastBlockNumber w = Null \<or> gt (number block) (workerLastBlockNumber w)
      then w\<lparr>workerLastBlockNumber := number block, sentBlocks := sentBlocks w @ [block]\<rparr>
      else w)"

text \<open>A stream, or the worker, run through what happens to it.\<close>

fun streamRun :: "('ev \<Rightarrow> 'st \<Rightarrow> 'st) \<Rightarrow> 'ev list \<Rightarrow> 'st \<Rightarrow> 'st" where
  "streamRun step [] s = s"
| "streamRun step (e # es) s = streamRun step es (step e s)"

text \<open>The items a stream has handed to its consumer, in order.\<close>

definition delivered :: "('a, 'z) Stream_scheme \<Rightarrow> 'a list" where
  "delivered s = items (map snd (settled s))"

text \<open>
  Blocks in strictly increasing order of their numbers: every block has a number, and
  every later one's is greater than every earlier one's.
\<close>

fun hasNumber :: "Block \<Rightarrow> bool" where
  "hasNumber (Block (Num n) t) = True"
| "hasNumber b = False"

definition increasing :: "Block list \<Rightarrow> bool" where
  "increasing bs = (list_all hasNumber bs \<and> sorted_wrt (\<lambda>a b. gt (number b) (number a)) bs)"

text \<open>
  A stream \<open>s\<close> has become \<open>c\<close> by its cleanup, and \<open>evs\<close> happens afterwards: every call
  of \<^verbatim>\<open>next()\<close> that was waiting in \<open>s\<close> has been answered with done; after \<open>evs\<close> no call
  is waiting, and the answers given since the cleanup are the answers of the calls of
  \<^verbatim>\<open>next()\<close> in \<open>evs\<close>, in the order of the calls, each done.
\<close>

definition endsStream ::
  "('a stream_event \<Rightarrow> ('a, 'z) Stream_scheme \<Rightarrow> ('a, 'z) Stream_scheme) \<Rightarrow>
   ('a, 'z) Stream_scheme \<Rightarrow> ('a, 'z) Stream_scheme \<Rightarrow> 'a stream_event list \<Rightarrow> bool" where
  "endsStream step s c evs =
     (settled c = settled s @ map (\<lambda>r. (r, Done)) (resolvers s) \<and>
      resolvers (streamRun step evs c) = [] \<and>
      settled (streamRun step evs c) =
        settled c @ map (\<lambda>p. (p, Done)) [calls s..<calls s + count_list evs CallNext])"

text \<open>
  What holds of the blocks a stream of \<^verbatim>\<open>BlockCollector\<close> has delivered or still
  buffers, and of the blocks the worker has sent, as long as every block accepted had a
  number: they are in increasing order, none is beyond \<^verbatim>\<open>lastBlockNumber\<close>, and there
  are none while \<^verbatim>\<open>lastBlockNumber\<close> is \<^verbatim>\<open>null\<close>; a waiting resolver means an empty
  queue.
\<close>

fun atMost :: "int \<Rightarrow> Block \<Rightarrow> bool" where
  "atMost n (Block (Num m) t) = (m \<le> n)"
| "atMost n b = False"

definition numberedInv :: "Block list \<Rightarrow> blocknum \<Rightarrow> bool" where
  "numberedInv bs l =
     (increasing bs \<and>
      (case l of Num n \<Rightarrow> list_all (atMost n) bs | Null \<Rightarrow> bs = [] | Undefined \<Rightarrow> bs = []))"

definition streamInv :: "Block NumberedStream \<Rightarrow> bool" where
  "streamInv s =
     ((resolvers s \<noteq> [] \<longrightarrow> queue s = []) \<and>
      lastBlockNumber s \<noteq> Undefined \<and>
      numberedInv (delivered s @ queue s) (lastBlockNumber s))"

definition workerInv :: "Worker \<Rightarrow> bool" where
  "workerInv w =
     (workerLastBlockNumber w \<noteq> Undefined \<and> numberedInv (sentBlocks w) (workerLastBlockNumber w))"

text \<open>
  What a polling stream may see: blocks 5, 3 and 7 fetched, then three calls of
  \<^verbatim>\<open>next()\<close>.
\<close>

definition polledBlocks :: "Block stream_event list" where
  "polledBlocks =
     [Incoming (Block (Num 5) 0), Incoming (Block (Num 3) 1), Incoming (Block (Num 7) 2),
      CallNext, CallNext, CallNext]"

section \<open>Properties of the supervised task loop\<close>

lemma backoffStep_eq:
  "backoffStep cfg s =
     (if consecutiveErrors s > maxConsecutiveErrors cfg
      then s\<lparr>backoffMs := newBackoff cfg (backoffMs s), sleeps := sleeps s @ [newBackoff cfg (backoffMs s)]\<rparr>
      else s)"
  by (simp add: backoffStep_def Let_def)

lemma catchBlock_not_closed:
  "\<not> isClosed e \<Longrightarrow>
   catchBlock cfg e s =
     (let s2 = backoffStep cfg (s\<lparr>consecutiveErrors := consecutiveErrors s + 1\<rparr>) in
      if stopOnCriticalError cfg \<and> consecutiveErrors s2 > maxConsecutiveErrors cfg * 2
      then (s2\<lparr>stopCalled := True\<rparr>, Break) else (s2, Continue))"
  by (cases e rule: isClosed.cases) (simp_all add: catchBlock_def)

lemma catchBlock_closed:
  "isClosed e \<Longrightarrow> catchBlock cfg e s = (s\<lparr>consecutiveErrors := consecutiveErrors s + 1\<rparr>, Break)"
  by (cases e rule: isClosed.cases) (simp_all add: catchBlock_def)

lemma failing_tryBlock: "failing it \<Longrightarrow> \<exists>e. tryBlock it = Inl e \<and> \<not> isClosed e"
  by (cases it rule: failing.cases) simp_all

lemma failing_not_RunningFalse: "failing it \<Longrightarrow> it \<noteq> RunningFalse"
  by (cases it rule: failing.cases) simp_all

lemma consecutiveErrors_backoffStep [simp]:
  "consecutiveErrors (backoffStep cfg s) = consecutiveErrors s"
  by (simp add: backoffStep_eq)

lemma loopBody_failing:
  assumes "failing it"
  shows "loopBody cfg it s =
     (let s2 = backoffStep cfg (s\<lparr>consecutiveErrors := consecutiveErrors s + 1\<rparr>) in
      if stopOnCriticalError cfg \<and> consecutiveErrors s + 1 > maxConsecutiveErrors cfg * 2
      then (s2\<lparr>stopCalled := True\<rparr>, Break) else (s2, Continue))"
proof -
  from failing_tryBlock[OF assms] obtain e where e: "tryBlock it = Inl e" "\<not> isClosed e" by blast
  show ?thesis by (simp add: loopBody_def e catchBlock_not_closed Let_def)
qed

lemma taskLoop_append:
  "taskLoop cfg (xs @ ys) s =
     (case taskLoop cfg xs s of (s', True) \<Rightarrow> (s', True) | (s', False) \<Rightarrow> taskLoop cfg ys s')"
proof (induction xs arbitrary: s)
  case Nil
  show ?case by simp
next
  case (Cons x xs)
  show ?case
  proof (cases "loopBody cfg x s")
    case (Pair s1 c)
    then show ?thesis using Cons.IH[of s1] by (cases c) simp_all
  qed
qed

lemma loopBody_escalate:
  assumes "failing f" and "consecutiveErrors s + 1 > maxConsecutiveErrors cfg"
    and "\<not> (stopOnCriticalError cfg \<and> consecutiveErrors s + 1 > maxConsecutiveErrors cfg * 2)"
  shows "loopBody cfg f s =
     (s\<lparr>consecutiveErrors := consecutiveErrors s + 1,
        backoffMs := newBackoff cfg (backoffMs s),
        sleeps := sleeps s @ [newBackoff cfg (backoffMs s)]\<rparr>, Continue)"
  using assms by (simp add: loopBody_failing backoffStep_eq Let_def)

lemma loopBody_below:
  assumes "failing f" and "\<not> consecutiveErrors s + 1 > maxConsecutiveErrors cfg"
    and "\<not> (stopOnCriticalError cfg \<and> consecutiveErrors s + 1 > maxConsecutiveErrors cfg * 2)"
  shows "loopBody cfg f s = (s\<lparr>consecutiveErrors := consecutiveErrors s + 1\<rparr>, Continue)"
  using assms by (simp add: loopBody_failing backoffStep_eq Let_def)

lemma continuous_failure:
  assumes "0 \<le> maxConsecutiveErrors cfg" and "list_all failing fs"
    and "stopOnCriticalError cfg \<longrightarrow> int (length fs) \<le> maxConsecutiveErrors cfg * 2"
  shows "taskLoop cfg fs (initialLoopState cfg) =
     (\<lparr> consecutiveErrors = int (length fs),
        backoffMs = (newBackoff cfg ^^ nat (int (length fs) - maxConsecutiveErrors cfg)) (initialBackoffMs cfg),
        sleeps = map (\<lambda>j. (newBackoff cfg ^^ j) (initialBackoffMs cfg))
                   [1..<Suc (nat (int (length fs) - maxConsecutiveErrors cfg))],
        stopCalled = False \<rparr>, False)"
  using assms
proof (induction fs rule: rev_induct)
  case Nil
  then show ?case by (simp add: initialLoopState_def)
next
  case (snoc f fs)
  define n where "n = int (length fs)"
  define m where "m = nat (n - maxConsecutiveErrors cfg)"
  define S where "S = \<lparr> consecutiveErrors = n,
        backoffMs = (newBackoff cfg ^^ m) (initialBackoffMs cfg),
        sleeps = map (\<lambda>j. (newBackoff cfg ^^ j) (initialBackoffMs cfg)) [1..<Suc m],
        stopCalled = False \<rparr>"
  have f: "failing f" and fs: "list_all failing fs" using snoc.prems(2) by simp_all
  have nostop: "\<not> (stopOnCriticalError cfg \<and> consecutiveErrors S + 1 > maxConsecutiveErrors cfg * 2)"
    using snoc.prems(3) by (auto simp: S_def n_def)
  have nostop': "stopOnCriticalError cfg \<longrightarrow> int (length fs) \<le> maxConsecutiveErrors cfg * 2"
    using snoc.prems(3) by auto
  have IH: "taskLoop cfg fs (initialLoopState cfg) = (S, False)"
    using snoc.IH[OF snoc.prems(1) fs nostop'] by (simp add: S_def m_def n_def)
  have one: "taskLoop cfg [f] S = (fst (loopBody cfg f S), snd (loopBody cfg f S) = Break)"
    using failing_not_RunningFalse[OF f]
    by (cases "loopBody cfg f S"; cases "snd (loopBody cfg f S)") simp_all
  have len: "int (length (fs @ [f])) = n + 1" by (simp add: n_def)
  have goal: "taskLoop cfg (fs @ [f]) (initialLoopState cfg) =
     (\<lparr> consecutiveErrors = n + 1,
        backoffMs = (newBackoff cfg ^^ nat (n + 1 - maxConsecutiveErrors cfg)) (initialBackoffMs cfg),
        sleeps = map (\<lambda>j. (newBackoff cfg ^^ j) (initialBackoffMs cfg))
                   [1..<Suc (nat (n + 1 - maxConsecutiveErrors cfg))],
        stopCalled = False \<rparr>, False)"
  proof (cases "n + 1 > maxConsecutiveErrors cfg")
    case True
    then have eq: "nat (n + 1 - maxConsecutiveErrors cfg) = Suc m" unfolding m_def by linarith
    have esc: "consecutiveErrors S + 1 > maxConsecutiveErrors cfg" using True by (simp add: S_def)
    show ?thesis
      unfolding taskLoop_append IH eq
      by (simp only: one loopBody_escalate[OF f esc nostop] prod.case bool.case fst_conv snd_conv)
         (simp add: S_def)
  next
    case False
    then have eq: "nat (n + 1 - maxConsecutiveErrors cfg) = 0" and m0: "m = 0"
      unfolding m_def by linarith+
    have esc: "\<not> consecutiveErrors S + 1 > maxConsecutiveErrors cfg" using False by (simp add: S_def)
    show ?thesis
      unfolding taskLoop_append IH eq
      by (simp only: one loopBody_below[OF f esc nostop] prod.case bool.case fst_conv snd_conv)
         (simp add: S_def m0)
  qed
  show ?case unfolding len using goal .
qed

lemma funpow_newBackoff:
  assumes "0 \<le> maxBackoffMs cfg"
  shows "(newBackoff cfg ^^ Suc j) b = min (b * 2 ^ Suc j) (maxBackoffMs cfg)"
proof (induction j)
  case 0
  show ?case by (simp add: newBackoff_def)
next
  case (Suc j)
  have "(newBackoff cfg ^^ Suc (Suc j)) b = newBackoff cfg ((newBackoff cfg ^^ Suc j) b)" by simp
  also have "\<dots> = min (min (b * 2 ^ Suc j) (maxBackoffMs cfg) * 2) (maxBackoffMs cfg)"
    unfolding Suc.IH by (simp only: newBackoff_def)
  also have "\<dots> = min (b * 2 ^ Suc (Suc j)) (maxBackoffMs cfg)"
    using assms by (simp add: min_def)
  finally show ?case .
qed

lemma taskLoop_invariant:
  assumes "P s"
    and "\<And>it t t' c. P t \<Longrightarrow> loopBody cfg it t = (t', c) \<Longrightarrow> P t'"
    and "taskLoop cfg its s = (s', b)"
  shows "P s'"
  using assms(1,3)
proof (induction its arbitrary: s)
  case Nil
  then show ?case by simp
next
  case (Cons it its)
  show ?case
  proof (cases "it = RunningFalse")
    case True
    with Cons.prems show ?thesis by simp
  next
    case False
    obtain s1 c where lb: "loopBody cfg it s = (s1, c)" by (cases "loopBody cfg it s")
    have P1: "P s1" using assms(2)[OF Cons.prems(1) lb] .
    show ?thesis
    proof (cases c)
      case Continue
      with Cons.prems(2) False lb have "taskLoop cfg its s1 = (s', b)" by simp
      from Cons.IH[OF P1 this] show ?thesis .
    next
      case Break
      with Cons.prems(2) False lb have "s' = s1" by simp
      with P1 show ?thesis by simp
    qed
  qed
qed

lemma catchBlock_at_or_below_threshold:
  assumes "catchBlock cfg e s = (s', c)" and "consecutiveErrors s' \<le> maxConsecutiveErrors cfg"
  shows "backoffMs s' = backoffMs s \<and> sleeps s' = sleeps s"
proof (cases "isClosed e")
  case True
  with assms show ?thesis by (auto simp: catchBlock_closed)
next
  case False
  with assms show ?thesis
    by (auto simp: catchBlock_not_closed backoffStep_eq Let_def split: if_splits)
qed

lemma loopBody_low:
  assumes "consecutiveErrors s \<le> maxConsecutiveErrors cfg \<longrightarrow> backoffMs s = initialBackoffMs cfg"
    and "loopBody cfg it s = (s', c)"
  shows "consecutiveErrors s' \<le> maxConsecutiveErrors cfg \<longrightarrow> backoffMs s' = initialBackoffMs cfg"
proof (cases "tryBlock it")
  case (Inl e)
  with assms(2) have cb: "catchBlock cfg e s = (s', c)" by (simp add: loopBody_def)
  show ?thesis
  proof
    assume le: "consecutiveErrors s' \<le> maxConsecutiveErrors cfg"
    from catchBlock_at_or_below_threshold[OF cb le] have same: "backoffMs s' = backoffMs s" by simp
    have "consecutiveErrors s' = consecutiveErrors s + 1"
      using cb by (cases "isClosed e") (auto simp: catchBlock_closed catchBlock_not_closed Let_def split: if_splits)
    with le assms(1) same show "backoffMs s' = initialBackoffMs cfg" by simp
  qed
next
  case (Inr k)
  with assms show ?thesis
    by (cases k) (auto simp: loopBody_def resetOnSuccess_def split: if_splits)
qed

lemma loopBody_sleeps_bounded:
  assumes "list_all (\<lambda>d. d \<le> maxBackoffMs cfg) (sleeps s)"
    and "loopBody cfg it s = (s', c)"
  shows "list_all (\<lambda>d. d \<le> maxBackoffMs cfg) (sleeps s')"
proof (cases "tryBlock it")
  case (Inl e)
  with assms(2) have cb: "catchBlock cfg e s = (s', c)" by (simp add: loopBody_def)
  show ?thesis
  proof (cases "isClosed e")
    case True
    with cb assms(1) show ?thesis by (auto simp: catchBlock_closed)
  next
    case False
    with cb assms(1) show ?thesis
      by (auto simp: catchBlock_not_closed backoffStep_eq newBackoff_def Let_def split: if_splits)
  qed
next
  case (Inr k)
  with assms show ?thesis
    by (cases k) (auto simp: loopBody_def resetOnSuccess_def split: if_splits)
qed

lemma continuous_failure_from:
  assumes "0 \<le> maxConsecutiveErrors cfg" and "consecutiveErrors s0 = 0"
    and "list_all failing fs"
    and "stopOnCriticalError cfg \<longrightarrow> int (length fs) \<le> maxConsecutiveErrors cfg * 2"
  shows "taskLoop cfg fs s0 =
     (s0\<lparr> consecutiveErrors := int (length fs),
          backoffMs := (newBackoff cfg ^^ nat (int (length fs) - maxConsecutiveErrors cfg)) (backoffMs s0),
          sleeps := sleeps s0 @ map (\<lambda>j. (newBackoff cfg ^^ j) (backoffMs s0))
                   [1..<Suc (nat (int (length fs) - maxConsecutiveErrors cfg))] \<rparr>, False)"
  using assms
proof (induction fs rule: rev_induct)
  case Nil
  then show ?case by (cases s0) simp
next
  case (snoc f fs)
  define n where "n = int (length fs)"
  define m where "m = nat (n - maxConsecutiveErrors cfg)"
  define S where "S = s0\<lparr> consecutiveErrors := n,
        backoffMs := (newBackoff cfg ^^ m) (backoffMs s0),
        sleeps := sleeps s0 @ map (\<lambda>j. (newBackoff cfg ^^ j) (backoffMs s0)) [1..<Suc m] \<rparr>"
  have f: "failing f" and fs: "list_all failing fs" using snoc.prems(3) by simp_all
  have nostop: "\<not> (stopOnCriticalError cfg \<and> consecutiveErrors S + 1 > maxConsecutiveErrors cfg * 2)"
    using snoc.prems(4) by (auto simp: S_def n_def)
  have nostop': "stopOnCriticalError cfg \<longrightarrow> int (length fs) \<le> maxConsecutiveErrors cfg * 2"
    using snoc.prems(4) by auto
  have IH: "taskLoop cfg fs s0 = (S, False)"
    using snoc.IH[OF snoc.prems(1,2) fs nostop'] by (simp add: S_def m_def n_def)
  have one: "taskLoop cfg [f] S = (fst (loopBody cfg f S), snd (loopBody cfg f S) = Break)"
    using failing_not_RunningFalse[OF f]
    by (cases "loopBody cfg f S"; cases "snd (loopBody cfg f S)") simp_all
  have len: "int (length (fs @ [f])) = n + 1" by (simp add: n_def)
  have goal: "taskLoop cfg (fs @ [f]) s0 =
     (s0\<lparr> consecutiveErrors := n + 1,
          backoffMs := (newBackoff cfg ^^ nat (n + 1 - maxConsecutiveErrors cfg)) (backoffMs s0),
          sleeps := sleeps s0 @ map (\<lambda>j. (newBackoff cfg ^^ j) (backoffMs s0))
                   [1..<Suc (nat (n + 1 - maxConsecutiveErrors cfg))] \<rparr>, False)"
  proof (cases "n + 1 > maxConsecutiveErrors cfg")
    case True
    then have eq: "nat (n + 1 - maxConsecutiveErrors cfg) = Suc m" unfolding m_def by linarith
    have esc: "consecutiveErrors S + 1 > maxConsecutiveErrors cfg" using True by (simp add: S_def)
    show ?thesis
      unfolding taskLoop_append IH eq
      by (simp only: one loopBody_escalate[OF f esc nostop] prod.case bool.case fst_conv snd_conv)
         (simp add: S_def)
  next
    case False
    then have eq: "nat (n + 1 - maxConsecutiveErrors cfg) = 0" and m0: "m = 0"
      unfolding m_def by linarith+
    have esc: "\<not> consecutiveErrors S + 1 > maxConsecutiveErrors cfg" using False by (simp add: S_def)
    show ?thesis
      unfolding taskLoop_append IH eq
      by (simp only: one loopBody_below[OF f esc nostop] prod.case bool.case fst_conv snd_conv)
         (simp add: S_def m0)
  qed
  show ?case unfolding len using goal .
qed

lemma loopBody_fresh:
  assumes "0 \<le> consecutiveErrors s \<and>
      (consecutiveErrors s = 0 \<longrightarrow> backoffMs s = initialBackoffMs cfg)"
    and "loopBody cfg it s = (s', c)"
  shows "0 \<le> consecutiveErrors s' \<and>
      (consecutiveErrors s' = 0 \<longrightarrow> backoffMs s' = initialBackoffMs cfg)"
proof (cases "tryBlock it")
  case (Inl e)
  with assms(2) have cb: "catchBlock cfg e s = (s', c)" by (simp add: loopBody_def)
  have "consecutiveErrors s' = consecutiveErrors s + 1"
    using cb by (cases "isClosed e") (auto simp: catchBlock_closed catchBlock_not_closed Let_def split: if_splits)
  with assms(1) show ?thesis by simp
next
  case (Inr k)
  with assms show ?thesis
    by (cases k) (auto simp: loopBody_def resetOnSuccess_def split: if_splits)
qed

lemma taskLoop_fresh:
  assumes "taskLoop cfg its (initialLoopState cfg) = (s, b)"
  shows "0 \<le> consecutiveErrors s \<and>
      (consecutiveErrors s = 0 \<longrightarrow> backoffMs s = initialBackoffMs cfg)"
proof (rule taskLoop_invariant[where P = "\<lambda>t. 0 \<le> consecutiveErrors t \<and>
      (consecutiveErrors t = 0 \<longrightarrow> backoffMs t = initialBackoffMs cfg)"])
  show "0 \<le> consecutiveErrors (initialLoopState cfg) \<and>
      (consecutiveErrors (initialLoopState cfg) = 0 \<longrightarrow>
       backoffMs (initialLoopState cfg) = initialBackoffMs cfg)"
    by (simp add: initialLoopState_def)
  show "taskLoop cfg its (initialLoopState cfg) = (s, b)" by (rule assms)
qed (rule loopBody_fresh)

lemma taskLoop_then:
  assumes "taskLoop cfg its s = (s0, False)"
  shows "taskLoop cfg (its @ rest) s = taskLoop cfg rest s0"
  by (simp add: taskLoop_append assms)

lemma taskLoop_success:
  "taskLoop cfg [NextValue Returns] s = (resetOnSuccess cfg s, False)"
  by (simp add: loopBody_def)

lemma taskLoop_snoc_running:
  assumes "taskLoop cfg (its @ [it]) s = (s', False)"
  shows "\<exists>s1. taskLoop cfg its s = (s1, False) \<and> taskLoop cfg [it] s1 = (s', False)"
proof (cases "taskLoop cfg its s")
  case (Pair s1 b)
  with assms show ?thesis by (cases b) (simp_all add: taskLoop_append)
qed

text \<open>
  Claim C3. The backoff state machine of the supervised task loop. The loop runs from its
  initial state through any iterations; \<open>s0\<close> below is a state it has reached with the
  loop still running and the count at zero (at the start, or after a success).
  \<^item> Backoff escalates only once the consecutive-error count exceeds
    \<^verbatim>\<open>maxConsecutiveErrors\<close>: whatever the loop has been through, while the count is at
    or below the threshold the backoff is \<^verbatim>\<open>initialBackoffMs\<close>, and an error that leaves
    the count at or below the threshold neither changes the backoff nor sleeps.
  \<^item> Every success, also one after the backoff has escalated, brings the count back to
    zero and the backoff back to \<^verbatim>\<open>initialBackoffMs\<close>, and the loop goes on.
  \<^item> So an isolated error, one that follows a success or the start, only sets the count to
    1, without a sleep and without a change of the backoff, the threshold being at least
    1. (With a threshold below 1 the first error already exceeds it.)
  \<^item> A loop that then fails exactly \<^verbatim>\<open>maxConsecutiveErrors - 1\<close> times and succeeds is
    back in the state \<open>s0\<close>: backoff \<^verbatim>\<open>initialBackoffMs\<close>, count zero, and no sleep has
    been added.
  \<^item> Under continuous failure from \<open>s0\<close> every error beyond the threshold doubles the
    backoff, capped at \<^verbatim>\<open>maxBackoffMs\<close>, and sleeps for it: after \<open>n\<close> failures the
    sleeps added are \<open>min (initial * 2 ^ j) max\<close> for \<open>j = 1 .. n - threshold\<close>; no sleep
    of any run is longer than \<^verbatim>\<open>maxBackoffMs\<close>.
\<close>

theorem backoff_state_machine:
  "(\<forall>its s b. taskLoop cfg its (initialLoopState cfg) = (s, b) \<and>
        consecutiveErrors s \<le> maxConsecutiveErrors cfg \<longrightarrow>
        backoffMs s = initialBackoffMs cfg) \<and>
   (\<forall>e s s' c. catchBlock cfg e s = (s', c) \<and>
        consecutiveErrors s' \<le> maxConsecutiveErrors cfg \<longrightarrow>
        backoffMs s' = backoffMs s \<and> sleeps s' = sleeps s) \<and>
   (\<forall>its s1. taskLoop cfg its (initialLoopState cfg) = (s1, False) \<longrightarrow>
        taskLoop cfg (its @ [NextValue Returns]) (initialLoopState cfg) =
          (s1\<lparr>consecutiveErrors := 0, backoffMs := initialBackoffMs cfg\<rparr>, False)) \<and>
   (\<forall>its s0 f. taskLoop cfg its (initialLoopState cfg) = (s0, False) \<and>
        consecutiveErrors s0 = 0 \<and> failing f \<and> 1 \<le> maxConsecutiveErrors cfg \<longrightarrow>
        taskLoop cfg (its @ [f]) (initialLoopState cfg) =
          (s0\<lparr>consecutiveErrors := 1\<rparr>, False)) \<and>
   (\<forall>its s0 fs. taskLoop cfg its (initialLoopState cfg) = (s0, False) \<and>
        consecutiveErrors s0 = 0 \<and>
        list_all failing fs \<and> int (length fs) = maxConsecutiveErrors cfg - 1 \<longrightarrow>
        taskLoop cfg (its @ fs @ [NextValue Returns]) (initialLoopState cfg) = (s0, False)) \<and>
   (\<forall>its s0 fs. taskLoop cfg its (initialLoopState cfg) = (s0, False) \<and>
        consecutiveErrors s0 = 0 \<and>
        list_all failing fs \<and> 0 \<le> maxConsecutiveErrors cfg \<and> 0 \<le> maxBackoffMs cfg \<and>
        (stopOnCriticalError cfg \<longrightarrow> int (length fs) \<le> maxConsecutiveErrors cfg * 2) \<longrightarrow>
        taskLoop cfg (its @ fs) (initialLoopState cfg) =
          (s0\<lparr> consecutiveErrors := int (length fs),
               backoffMs :=
                 (if int (length fs) \<le> maxConsecutiveErrors cfg then initialBackoffMs cfg
                  else min (initialBackoffMs cfg *
                              2 ^ nat (int (length fs) - maxConsecutiveErrors cfg))
                           (maxBackoffMs cfg)),
               sleeps := sleeps s0 @
                 map (\<lambda>j. min (initialBackoffMs cfg * 2 ^ j) (maxBackoffMs cfg))
                   [1..<Suc (nat (int (length fs) - maxConsecutiveErrors cfg))] \<rparr>, False)) \<and>
   (\<forall>its s b. taskLoop cfg its (initialLoopState cfg) = (s, b) \<longrightarrow>
        (\<forall>d \<in> set (sleeps s). d \<le> maxBackoffMs cfg))"
proof -
  have p1: "\<forall>its s b. taskLoop cfg its (initialLoopState cfg) = (s, b) \<and>
        consecutiveErrors s \<le> maxConsecutiveErrors cfg \<longrightarrow>
        backoffMs s = initialBackoffMs cfg"
  proof (intro allI impI)
    fix its s b
    assume a: "taskLoop cfg its (initialLoopState cfg) = (s, b) \<and>
        consecutiveErrors s \<le> maxConsecutiveErrors cfg"
    have "consecutiveErrors s \<le> maxConsecutiveErrors cfg \<longrightarrow> backoffMs s = initialBackoffMs cfg"
    proof (rule taskLoop_invariant[where P = "\<lambda>t. consecutiveErrors t \<le> maxConsecutiveErrors cfg \<longrightarrow> backoffMs t = initialBackoffMs cfg"])
      show "consecutiveErrors (initialLoopState cfg) \<le> maxConsecutiveErrors cfg \<longrightarrow>
        backoffMs (initialLoopState cfg) = initialBackoffMs cfg"
        by (simp add: initialLoopState_def)
      show "taskLoop cfg its (initialLoopState cfg) = (s, b)" using a by simp
    qed (rule loopBody_low)
    with a show "backoffMs s = initialBackoffMs cfg" by simp
  qed
  have p2: "\<forall>e s s' c. catchBlock cfg e s = (s', c) \<and>
        consecutiveErrors s' \<le> maxConsecutiveErrors cfg \<longrightarrow>
        backoffMs s' = backoffMs s \<and> sleeps s' = sleeps s"
    using catchBlock_at_or_below_threshold by blast
  have pA: "\<forall>its s1. taskLoop cfg its (initialLoopState cfg) = (s1, False) \<longrightarrow>
        taskLoop cfg (its @ [NextValue Returns]) (initialLoopState cfg) =
          (s1\<lparr>consecutiveErrors := 0, backoffMs := initialBackoffMs cfg\<rparr>, False)"
  proof (intro allI impI)
    fix its s1
    assume r: "taskLoop cfg its (initialLoopState cfg) = (s1, False)"
    from taskLoop_fresh[OF r]
    have fr: "0 \<le> consecutiveErrors s1"
      "consecutiveErrors s1 = 0 \<longrightarrow> backoffMs s1 = initialBackoffMs cfg" by simp_all
    have "resetOnSuccess cfg s1 =
        s1\<lparr>consecutiveErrors := 0, backoffMs := initialBackoffMs cfg\<rparr>"
    proof (cases "consecutiveErrors s1 > 0")
      case True
      then show ?thesis by (simp add: resetOnSuccess_def)
    next
      case False
      with fr have "consecutiveErrors s1 = 0" "backoffMs s1 = initialBackoffMs cfg" by simp_all
      then show ?thesis by (cases s1) (simp add: resetOnSuccess_def)
    qed
    then show "taskLoop cfg (its @ [NextValue Returns]) (initialLoopState cfg) =
          (s1\<lparr>consecutiveErrors := 0, backoffMs := initialBackoffMs cfg\<rparr>, False)"
      unfolding taskLoop_then[OF r] taskLoop_success by simp
  qed
  have from0: "backoffMs s0 = initialBackoffMs cfg"
    if "taskLoop cfg its (initialLoopState cfg) = (s0, False)" "consecutiveErrors s0 = 0"
    for its s0
    using taskLoop_fresh[OF that(1)] that(2) by simp
  have p4: "\<forall>its s0 fs. taskLoop cfg its (initialLoopState cfg) = (s0, False) \<and>
        consecutiveErrors s0 = 0 \<and>
        list_all failing fs \<and> 0 \<le> maxConsecutiveErrors cfg \<and> 0 \<le> maxBackoffMs cfg \<and>
        (stopOnCriticalError cfg \<longrightarrow> int (length fs) \<le> maxConsecutiveErrors cfg * 2) \<longrightarrow>
        taskLoop cfg (its @ fs) (initialLoopState cfg) =
          (s0\<lparr> consecutiveErrors := int (length fs),
               backoffMs :=
                 (if int (length fs) \<le> maxConsecutiveErrors cfg then initialBackoffMs cfg
                  else min (initialBackoffMs cfg *
                              2 ^ nat (int (length fs) - maxConsecutiveErrors cfg))
                           (maxBackoffMs cfg)),
               sleeps := sleeps s0 @
                 map (\<lambda>j. min (initialBackoffMs cfg * 2 ^ j) (maxBackoffMs cfg))
                   [1..<Suc (nat (int (length fs) - maxConsecutiveErrors cfg))] \<rparr>, False)"
  proof (intro allI impI)
    fix its s0 fs
    assume a: "taskLoop cfg its (initialLoopState cfg) = (s0, False) \<and>
        consecutiveErrors s0 = 0 \<and>
        list_all failing fs \<and> 0 \<le> maxConsecutiveErrors cfg \<and> 0 \<le> maxBackoffMs cfg \<and>
        (stopOnCriticalError cfg \<longrightarrow> int (length fs) \<le> maxConsecutiveErrors cfg * 2)"
    then have r: "taskLoop cfg its (initialLoopState cfg) = (s0, False)"
      and z: "consecutiveErrors s0 = 0"
      and f: "list_all failing fs" and m: "0 \<le> maxConsecutiveErrors cfg"
      and M: "0 \<le> maxBackoffMs cfg"
      and ns: "stopOnCriticalError cfg \<longrightarrow> int (length fs) \<le> maxConsecutiveErrors cfg * 2"
      by simp_all
    have b0: "backoffMs s0 = initialBackoffMs cfg" by (rule from0[OF r z])
    define k where "k = nat (int (length fs) - maxConsecutiveErrors cfg)"
    have pow: "(newBackoff cfg ^^ j) (initialBackoffMs cfg) = min (initialBackoffMs cfg * 2 ^ j) (maxBackoffMs cfg)"
      if "1 \<le> j" for j
    proof -
      from that obtain i where "j = Suc i" by (cases j) simp_all
      then show ?thesis using funpow_newBackoff[OF M, of i "initialBackoffMs cfg"] by simp
    qed
    have sl: "map (\<lambda>j. (newBackoff cfg ^^ j) (initialBackoffMs cfg)) [1..<Suc k]
        = map (\<lambda>j. min (initialBackoffMs cfg * 2 ^ j) (maxBackoffMs cfg)) [1..<Suc k]"
      by (rule map_cong) (auto simp: pow)
    have bk: "(newBackoff cfg ^^ k) (initialBackoffMs cfg) =
        (if int (length fs) \<le> maxConsecutiveErrors cfg then initialBackoffMs cfg
         else min (initialBackoffMs cfg * 2 ^ k) (maxBackoffMs cfg))"
    proof (cases "int (length fs) \<le> maxConsecutiveErrors cfg")
      case True
      then have "k = 0" by (simp add: k_def)
      with True show ?thesis by simp
    next
      case False
      then have "1 \<le> k" by (simp add: k_def)
      with False pow show ?thesis by simp
    qed
    show "taskLoop cfg (its @ fs) (initialLoopState cfg) =
          (s0\<lparr> consecutiveErrors := int (length fs),
               backoffMs :=
                 (if int (length fs) \<le> maxConsecutiveErrors cfg then initialBackoffMs cfg
                  else min (initialBackoffMs cfg *
                              2 ^ nat (int (length fs) - maxConsecutiveErrors cfg))
                           (maxBackoffMs cfg)),
               sleeps := sleeps s0 @
                 map (\<lambda>j. min (initialBackoffMs cfg * 2 ^ j) (maxBackoffMs cfg))
                   [1..<Suc (nat (int (length fs) - maxConsecutiveErrors cfg))] \<rparr>, False)"
      unfolding taskLoop_then[OF r] continuous_failure_from[OF m z f ns] b0 k_def[symmetric] sl bk ..
  qed
  have pI: "\<forall>its s0 f. taskLoop cfg its (initialLoopState cfg) = (s0, False) \<and>
        consecutiveErrors s0 = 0 \<and> failing f \<and> 1 \<le> maxConsecutiveErrors cfg \<longrightarrow>
        taskLoop cfg (its @ [f]) (initialLoopState cfg) =
          (s0\<lparr>consecutiveErrors := 1\<rparr>, False)"
  proof (intro allI impI)
    fix its s0 f
    assume a: "taskLoop cfg its (initialLoopState cfg) = (s0, False) \<and>
        consecutiveErrors s0 = 0 \<and> failing f \<and> 1 \<le> maxConsecutiveErrors cfg"
    then have r: "taskLoop cfg its (initialLoopState cfg) = (s0, False)"
      and z: "consecutiveErrors s0 = 0" and f: "list_all failing [f]"
      and m: "0 \<le> maxConsecutiveErrors cfg"
      and ns: "stopOnCriticalError cfg \<longrightarrow> int (length [f]) \<le> maxConsecutiveErrors cfg * 2"
      by simp_all
    have k: "nat (int (length [f]) - maxConsecutiveErrors cfg) = 0" using a by simp
    show "taskLoop cfg (its @ [f]) (initialLoopState cfg) = (s0\<lparr>consecutiveErrors := 1\<rparr>, False)"
      unfolding taskLoop_then[OF r] continuous_failure_from[OF m z f ns] k
      by (cases s0) simp
  qed
  have p3: "\<forall>its s0 fs. taskLoop cfg its (initialLoopState cfg) = (s0, False) \<and>
        consecutiveErrors s0 = 0 \<and>
        list_all failing fs \<and> int (length fs) = maxConsecutiveErrors cfg - 1 \<longrightarrow>
        taskLoop cfg (its @ fs @ [NextValue Returns]) (initialLoopState cfg) = (s0, False)"
  proof (intro allI impI)
    fix its s0 fs
    assume a: "taskLoop cfg its (initialLoopState cfg) = (s0, False) \<and>
        consecutiveErrors s0 = 0 \<and>
        list_all failing fs \<and> int (length fs) = maxConsecutiveErrors cfg - 1"
    then have r: "taskLoop cfg its (initialLoopState cfg) = (s0, False)"
      and z: "consecutiveErrors s0 = 0" and f: "list_all failing fs"
      and l: "int (length fs) = maxConsecutiveErrors cfg - 1" by simp_all
    have m: "0 \<le> maxConsecutiveErrors cfg" "int (length fs) - maxConsecutiveErrors cfg < 0"
      using l by linarith+
    have ns: "stopOnCriticalError cfg \<longrightarrow> int (length fs) \<le> maxConsecutiveErrors cfg * 2"
      using l by linarith
    have k: "nat (int (length fs) - maxConsecutiveErrors cfg) = 0" using m by simp
    have b0: "backoffMs s0 = initialBackoffMs cfg" by (rule from0[OF r z])
    have e1: "taskLoop cfg (its @ fs @ [NextValue Returns]) (initialLoopState cfg) =
        taskLoop cfg (fs @ [NextValue Returns]) s0"
      by (rule taskLoop_then[OF r])
    have e2: "taskLoop cfg (fs @ [NextValue Returns]) s0 =
        taskLoop cfg [NextValue Returns] (s0\<lparr>consecutiveErrors := int (length fs)\<rparr>)"
      using continuous_failure_from[OF m(1) z f ns] unfolding k
      by (simp add: taskLoop_then)
    show "taskLoop cfg (its @ fs @ [NextValue Returns]) (initialLoopState cfg) = (s0, False)"
      unfolding e1 e2 taskLoop_success
      using z b0 by (cases s0) (simp add: resetOnSuccess_def)
  qed
  have p5: "\<forall>its s b. taskLoop cfg its (initialLoopState cfg) = (s, b) \<longrightarrow>
        (\<forall>d \<in> set (sleeps s). d \<le> maxBackoffMs cfg)"
  proof (intro allI impI ballI)
    fix its s b d
    assume a: "taskLoop cfg its (initialLoopState cfg) = (s, b)" and d: "d \<in> set (sleeps s)"
    have "list_all (\<lambda>d. d \<le> maxBackoffMs cfg) (sleeps s)"
    proof (rule taskLoop_invariant[where P = "\<lambda>t. list_all (\<lambda>d. d \<le> maxBackoffMs cfg) (sleeps t)"])
      show "list_all (\<lambda>d. d \<le> maxBackoffMs cfg) (sleeps (initialLoopState cfg))"
        by (simp add: initialLoopState_def)
      show "taskLoop cfg its (initialLoopState cfg) = (s, b)" by (rule a)
    qed (rule loopBody_sleeps_bounded)
    with d show "d \<le> maxBackoffMs cfg" by (simp add: list_all_iff)
  qed
  show ?thesis
    by (rule conjI[OF p1 conjI[OF p2 conjI[OF pA conjI[OF pI conjI[OF p3 conjI[OF p4 p5]]]]]])
qed

theorem backoff_state_machine_witness:
  "taskLoop defaultConfig
     ([] @ replicate 8 (NextValue (Throws (Error ''boom''))))
     (initialLoopState defaultConfig) =
       (\<lparr> consecutiveErrors = 8, backoffMs = 800, sleeps = [200, 400, 800],
          stopCalled = False \<rparr>, False) \<and>
   taskLoop defaultConfig
     (([] @ replicate 8 (NextValue (Throws (Error ''boom'')))) @ [NextValue Returns])
     (initialLoopState defaultConfig) =
       (\<lparr> consecutiveErrors = 0, backoffMs = 100, sleeps = [200, 400, 800],
          stopCalled = False \<rparr>, False) \<and>
   taskLoop defaultConfig
     ((([] @ replicate 8 (NextValue (Throws (Error ''boom'')))) @ [NextValue Returns]) @
      [NextThrows (Error ''late'')])
     (initialLoopState defaultConfig) =
       (\<lparr> consecutiveErrors = 1, backoffMs = 100, sleeps = [200, 400, 800],
          stopCalled = False \<rparr>, False) \<and>
   taskLoop defaultConfig
     ((([] @ replicate 8 (NextValue (Throws (Error ''boom'')))) @ [NextValue Returns]) @
      replicate 4 (NextValue (Throws (Error ''boom''))) @ [NextValue Returns])
     (initialLoopState defaultConfig) =
       (\<lparr> consecutiveErrors = 0, backoffMs = 100, sleeps = [200, 400, 800],
          stopCalled = False \<rparr>, False)"
proof -
  let ?boom = "NextValue (Throws (Error ''boom''))"
  let ?b8 = "[] @ replicate 8 ?boom"
  let ?S = "\<lparr> consecutiveErrors = 0, backoffMs = 100, sleeps = [200, 400, 800],
          stopCalled = False \<rparr>"
  note T = backoff_state_machine[of defaultConfig]
  have i: "taskLoop defaultConfig [] (initialLoopState defaultConfig) =
      (initialLoopState defaultConfig, False)" by simp
  have f8: "consecutiveErrors (initialLoopState defaultConfig) = 0 \<and>
      list_all failing (replicate 8 ?boom) \<and> 0 \<le> maxConsecutiveErrors defaultConfig \<and>
      0 \<le> maxBackoffMs defaultConfig \<and>
      (stopOnCriticalError defaultConfig \<longrightarrow>
         int (length (replicate 8 ?boom)) \<le> maxConsecutiveErrors defaultConfig * 2)"
    by (simp add: defaultConfig_def initialLoopState_def list_all_iff)
  from T i f8
  have "taskLoop defaultConfig ?b8 (initialLoopState defaultConfig) =
          ((initialLoopState defaultConfig)
             \<lparr> consecutiveErrors := int (length (replicate 8 ?boom)),
               backoffMs :=
                 (if int (length (replicate 8 ?boom)) \<le> maxConsecutiveErrors defaultConfig
                  then initialBackoffMs defaultConfig
                  else min (initialBackoffMs defaultConfig *
                              2 ^ nat (int (length (replicate 8 ?boom)) -
                                       maxConsecutiveErrors defaultConfig))
                           (maxBackoffMs defaultConfig)),
               sleeps := sleeps (initialLoopState defaultConfig) @
                 map (\<lambda>j. min (initialBackoffMs defaultConfig * 2 ^ j)
                              (maxBackoffMs defaultConfig))
                   [1..<Suc (nat (int (length (replicate 8 ?boom)) -
                                  maxConsecutiveErrors defaultConfig))] \<rparr>, False)"
    by blast
  then have w1: "taskLoop defaultConfig ?b8 (initialLoopState defaultConfig) =
       (\<lparr> consecutiveErrors = 8, backoffMs = 800, sleeps = [200, 400, 800],
          stopCalled = False \<rparr>, False)"
    by (simp add: defaultConfig_def initialLoopState_def eval_nat_numeral upt_rec)
  from T w1
  have "taskLoop defaultConfig (?b8 @ [NextValue Returns]) (initialLoopState defaultConfig) =
      (\<lparr> consecutiveErrors = 8, backoffMs = 800, sleeps = [200, 400, 800],
          stopCalled = False \<rparr>
         \<lparr>consecutiveErrors := 0, backoffMs := initialBackoffMs defaultConfig\<rparr>, False)"
    by blast
  then have w2: "taskLoop defaultConfig (?b8 @ [NextValue Returns])
      (initialLoopState defaultConfig) = (?S, False)"
    by (simp add: defaultConfig_def)
  have h3: "consecutiveErrors ?S = 0 \<and> failing (NextThrows (Error ''late'')) \<and>
      1 \<le> maxConsecutiveErrors defaultConfig"
    by (simp add: defaultConfig_def)
  from T w2 h3
  have "taskLoop defaultConfig ((?b8 @ [NextValue Returns]) @ [NextThrows (Error ''late'')])
      (initialLoopState defaultConfig) = (?S\<lparr>consecutiveErrors := 1\<rparr>, False)"
    by blast
  then have w3: "taskLoop defaultConfig
      ((?b8 @ [NextValue Returns]) @ [NextThrows (Error ''late'')])
      (initialLoopState defaultConfig) =
       (\<lparr> consecutiveErrors = 1, backoffMs = 100, sleeps = [200, 400, 800],
          stopCalled = False \<rparr>, False)"
    by simp
  have h4: "consecutiveErrors ?S = 0 \<and> list_all failing (replicate 4 ?boom) \<and>
      int (length (replicate 4 ?boom)) = maxConsecutiveErrors defaultConfig - 1"
    by (simp add: defaultConfig_def list_all_iff)
  from T w2 h4
  have w4: "taskLoop defaultConfig
      ((?b8 @ [NextValue Returns]) @ replicate 4 ?boom @ [NextValue Returns])
      (initialLoopState defaultConfig) = (?S, False)"
    by blast
  from w1 w2 w3 w4 show ?thesis by blast
qed

section \<open>Properties of the engine\<close>

lemma numbered_Nil [simp]: "numbered f k [] = []"
  by (simp add: numbered_def)

lemma numbered_Cons [simp]: "numbered f k (x # xs) = f x k # numbered f (Suc k) xs"
  by (simp add: numbered_def)

lemma numbered_append: "numbered f k (xs @ ys) = numbered f k xs @ numbered f (k + length xs) ys"
  by (induction xs arbitrary: k) simp_all

lemma participantOf_numbered_executors [simp]:
  "map participantOf (numbered RunExecutor k xs) = map OfExecutor xs"
  by (induction xs arbitrary: k) simp_all

lemma participantOf_numbered_strategies [simp]:
  "map participantOf (numbered RunStrategy k ss) = map OfStrategy ss"
  by (induction ss arbitrary: k) simp_all

lemma withSubscribers_0 [simp]: "a < length h \<Longrightarrow> withSubscribers a 0 h = h"
  by (simp add: withSubscribers_def)

lemma withSubscribers_Suc:
  "a < length h \<Longrightarrow>
   withSubscribers a n (snd (subscribeAt a h)) = withSubscribers a (Suc n) h"
  by (simp add: withSubscribers_def subscribeAt_def subscribe_def replicate_app_Cons_same)

lemma length_withSubscribers [simp]: "length (withSubscribers a n h) = length h"
  by (simp add: withSubscribers_def)

lemma subscribeAt_fst: "a < length h \<Longrightarrow> fst (subscribeAt a h) = length (subscriptions (h ! a))"
  by (simp add: subscribeAt_def subscribe_def)

lemma subscribeAt_snd_length [simp]: "length (snd (subscribeAt a h)) = length h"
  by (simp add: subscribeAt_def)

lemma subscribeAt_snd_subs:
  "a < length h \<Longrightarrow> length (subscriptions (snd (subscribeAt a h) ! a)) = Suc (length (subscriptions (h ! a)))"
  by (simp add: subscribeAt_def subscribe_def)

lemma spawnExecutors_closed:
  assumes "actionChannel w = Some ac" and "ac < length (actionHeap w)"
  shows "spawnExecutors xs w =
     (None, w\<lparr>actionHeap := withSubscribers ac (length xs) (actionHeap w),
              tasks := tasks w @ numbered RunExecutor (length (subscriptions (actionHeap w ! ac))) xs,
              trace := trace w @ map Spawned (numbered RunExecutor (length (subscriptions (actionHeap w ! ac))) xs)\<rparr>)"
  using assms
proof (induction xs arbitrary: w)
  case Nil
  then show ?case by simp
next
  case (Cons x xs)
  define w1 where "w1 = snd (spawnExecutor x w)"
  have sp: "spawnExecutor x w = (None, w1)"
    using Cons.prems by (simp add: w1_def spawnExecutor_def Let_def case_prod_beta)
  have w1: "w1 = w\<lparr>actionHeap := snd (subscribeAt ac (actionHeap w)),
                    tasks := tasks w @ [RunExecutor x (length (subscriptions (actionHeap w ! ac)))],
                    trace := trace w @ [Spawned (RunExecutor x (length (subscriptions (actionHeap w ! ac))))]\<rparr>"
    using Cons.prems subscribeAt_fst[OF Cons.prems(2)]
    by (simp add: w1_def spawnExecutor_def Let_def case_prod_beta)
  have a1: "actionChannel w1 = Some ac" "ac < length (actionHeap w1)"
    using Cons.prems by (simp_all add: w1)
  show ?case
    using Cons.IH[OF a1] Cons.prems
    by (simp add: sp) (simp add: w1 withSubscribers_Suc subscribeAt_snd_subs)
qed

lemma await_undisturbed [simp]: "await (undisturbed s) w = w"
  by (simp add: await_def undisturbed_def)

lemma spawnStrategy_ok:
  assumes "eventChannel w = Some ec" and "ec < length (eventHeap w)" and "\<not> throwsOnSync s"
  shows "spawnStrategy undisturbed s w =
     (None, w\<lparr>eventHeap := snd (subscribeAt ec (eventHeap w)),
              tasks := tasks w @ [RunStrategy s (length (subscriptions (eventHeap w ! ec)))],
              trace := trace w @ strategyEvents (length (subscriptions (eventHeap w ! ec))) [s]\<rparr>)"
proof (cases s)
  case (Strategy n h)
  show ?thesis
  proof (cases h)
    case None
    with Strategy assms subscribeAt_fst[OF assms(2)] show ?thesis
      by (simp add: spawnStrategy_def Let_def case_prod_beta)
  next
    case (Some a)
    with Strategy assms(3) have "a = Returns" by (cases a) simp_all
    with Some Strategy assms subscribeAt_fst[OF assms(2)] show ?thesis
      by (simp add: spawnStrategy_def Let_def case_prod_beta)
  qed
qed

lemma spawnStrategy_throws:
  assumes "eventChannel w = Some ec" and "ec < length (eventHeap w)"
    and "syncState s = Some (Throws e)"
  shows "spawnStrategy undisturbed s w =
     (Some (Error (''Failed to sync state for '' @ strategyName s @ '': '' @ toString e)),
      w\<lparr>eventHeap := snd (subscribeAt ec (eventHeap w)),
        trace := trace w @ [SyncStateCalled s]\<rparr>)"
  using assms by (simp add: spawnStrategy_def Let_def case_prod_beta)

lemma strategyEvents_append:
  "strategyEvents k (xs @ ys) = strategyEvents k xs @ strategyEvents (k + length xs) ys"
  by (induction xs arbitrary: k) simp_all

lemma spawnStrategies_closed:
  assumes "eventChannel w = Some ec" and "ec < length (eventHeap w)"
    and "\<forall>s \<in> set ss. \<not> throwsOnSync s"
  shows "spawnStrategies undisturbed ss w =
     (None, w\<lparr>eventHeap := withSubscribers ec (length ss) (eventHeap w),
              tasks := tasks w @ numbered RunStrategy (length (subscriptions (eventHeap w ! ec))) ss,
              trace := trace w @ strategyEvents (length (subscriptions (eventHeap w ! ec))) ss\<rparr>)"
  using assms
proof (induction ss arbitrary: w)
  case Nil
  then show ?case by simp
next
  case (Cons s ss)
  have ns: "\<not> throwsOnSync s" and rest: "\<forall>s \<in> set ss. \<not> throwsOnSync s"
    using Cons.prems(3) by simp_all
  define k where "k = length (subscriptions (eventHeap w ! ec))"
  define w1 where "w1 = w\<lparr>eventHeap := snd (subscribeAt ec (eventHeap w)),
              tasks := tasks w @ [RunStrategy s k],
              trace := trace w @ strategyEvents k [s]\<rparr>"
  have sp: "spawnStrategy undisturbed s w = (None, w1)"
    unfolding w1_def k_def by (rule spawnStrategy_ok[OF Cons.prems(1,2) ns])
  have a1: "eventChannel w1 = Some ec" "ec < length (eventHeap w1)"
    using Cons.prems by (simp_all add: w1_def)
  have k1: "length (subscriptions (eventHeap w1 ! ec)) = Suc k"
    using Cons.prems(2) by (simp add: w1_def k_def subscribeAt_snd_subs)
  show ?case
    unfolding k_def[symmetric]
    using Cons.IH[OF a1 rest] Cons.prems(2)
    by (simp add: sp k1) (simp add: w1_def withSubscribers_Suc)
qed

lemma spawnStrategies_failing:
  assumes "eventChannel w = Some ec" and "ec < length (eventHeap w)"
    and "\<forall>s \<in> set pre. \<not> throwsOnSync s" and "syncState s = Some (Throws e)"
  shows "spawnStrategies undisturbed (pre @ s # post) w =
     (Some (Error (''Failed to sync state for '' @ strategyName s @ '': '' @ toString e)),
      w\<lparr>eventHeap := withSubscribers ec (Suc (length pre)) (eventHeap w),
        tasks := tasks w @ numbered RunStrategy (length (subscriptions (eventHeap w ! ec))) pre,
        trace := trace w @ strategyEvents (length (subscriptions (eventHeap w ! ec))) pre @
                 [SyncStateCalled s]\<rparr>)"
  using assms(1-3)
proof (induction pre arbitrary: w)
  case Nil
  then show ?case
    by (simp add: spawnStrategy_throws[OF Nil.prems(1,2) assms(4)] withSubscribers_Suc[of ec _ 0, symmetric])
next
  case (Cons p pre)
  have ns: "\<not> throwsOnSync p" and rest: "\<forall>s \<in> set pre. \<not> throwsOnSync s"
    using Cons.prems(3) by simp_all
  define k where "k = length (subscriptions (eventHeap w ! ec))"
  define w1 where "w1 = w\<lparr>eventHeap := snd (subscribeAt ec (eventHeap w)),
              tasks := tasks w @ [RunStrategy p k],
              trace := trace w @ strategyEvents k [p]\<rparr>"
  have sp: "spawnStrategy undisturbed p w = (None, w1)"
    unfolding w1_def k_def by (rule spawnStrategy_ok[OF Cons.prems(1,2) ns])
  have a1: "eventChannel w1 = Some ec" "ec < length (eventHeap w1)"
    using Cons.prems by (simp_all add: w1_def)
  have k1: "length (subscriptions (eventHeap w1 ! ec)) = Suc k"
    using Cons.prems(2) by (simp add: w1_def k_def subscribeAt_snd_subs)
  show ?case
    unfolding k_def[symmetric]
    using Cons.IH[OF a1 rest] Cons.prems(2)
    by (simp add: sp k1) (simp add: w1_def withSubscribers_Suc)
qed

lemma spawnCollectors_closed:
  "spawnCollectors cs w =
     w\<lparr>tasks := tasks w @ map RunCollector cs,
       trace := trace w @ map Spawned (map RunCollector cs)\<rparr>"
  by (induction cs arbitrary: w) (simp_all add: spawnCollector_def)

lemma strategies_split:
  "(\<forall>s \<in> set ss. \<not> throwsOnSync s) \<or>
   (\<exists>pre s e post. ss = pre @ s # post \<and> (\<forall>p \<in> set pre. \<not> throwsOnSync p) \<and>
      syncState s = Some (Throws e))"
proof (cases "\<exists>s \<in> set ss. throwsOnSync s")
  case False
  then show ?thesis by simp
next
  case True
  then obtain pre s post where sp: "ss = pre @ s # post" "throwsOnSync s" "\<forall>p \<in> set pre. \<not> throwsOnSync p"
    using split_list_first_prop[of ss throwsOnSync] by blast
  from sp(2) obtain e where "syncState s = Some (Throws e)"
    by (cases s rule: throwsOnSync.cases) simp_all
  with sp show ?thesis by blast
qed

lemma withSubscribers_new:
  "withSubscribers (length h) n (h @ [newBroadcastChannel c]) =
     h @ [(newBroadcastChannel c)\<lparr>subscriptions := replicate n newSubscription\<rparr>]"
  by (simp add: withSubscribers_def newBroadcastChannel_def)

lemma run_starts:
  assumes "executors w \<noteq> []" and "collectors w \<noteq> []" and "strategies w \<noteq> []"
    and "\<not> running w"
  shows "run env w =
     (case spawnStrategies env (strategies w)
             (startRun w\<lparr>actionHeap := withSubscribers (length (actionHeap w)) (length (executors w))
                                         (actionHeap (startRun w)),
                        tasks := numbered RunExecutor 0 (executors w),
                        trace := trace w @ [RunningSet True] @
                                 map Spawned (numbered RunExecutor 0 (executors w))\<rparr>) of
        (Some e, w2) \<Rightarrow> (Inl e, w2)
      | (None, w2) \<Rightarrow> (let w3 = spawnCollectors (collectors w2) w2 in (Inr (tasks w3), w3)))"
proof -
  have a: "actionChannel (startRun w) = Some (length (actionHeap w))"
    "length (actionHeap w) < length (actionHeap (startRun w))"
    "length (subscriptions (actionHeap (startRun w) ! length (actionHeap w))) = 0"
    "tasks (startRun w) = []" "trace (startRun w) = trace w @ [RunningSet True]"
    "executors (startRun w) = executors w" "strategies (startRun w) = strategies w"
    by (simp_all add: startRun_def newBroadcastChannel_def)
  show ?thesis
    using assms
    by (simp add: run_def spawnExecutors_closed[OF a(1,2)] a(3,4,5,6,7))
qed

lemma run_ok:
  assumes "executors w \<noteq> []" and "collectors w \<noteq> []" and "strategies w \<noteq> []"
    and "\<not> running w" and "\<forall>s \<in> set (strategies w). \<not> throwsOnSync s"
  shows "run undisturbed w =
     (Inr (numbered RunExecutor 0 (executors w) @ numbered RunStrategy 0 (strategies w) @
           map RunCollector (collectors w)),
      started w (length (strategies w))
        (numbered RunExecutor 0 (executors w) @ numbered RunStrategy 0 (strategies w) @
         map RunCollector (collectors w))
        (map Spawned (numbered RunExecutor 0 (executors w)) @
         strategyEvents 0 (strategies w) @
         map Spawned (map RunCollector (collectors w))))"
proof -
  define w1 where "w1 = startRun w\<lparr>actionHeap := withSubscribers (length (actionHeap w)) (length (executors w))
                                         (actionHeap (startRun w)),
                        tasks := numbered RunExecutor 0 (executors w),
                        trace := trace w @ [RunningSet True] @
                                 map Spawned (numbered RunExecutor 0 (executors w))\<rparr>"
  have a: "eventChannel w1 = Some (length (eventHeap w))"
    "length (eventHeap w) < length (eventHeap w1)"
    "length (subscriptions (eventHeap w1 ! length (eventHeap w))) = 0"
    "strategies w1 = strategies w"
    by (simp_all add: w1_def startRun_def newBroadcastChannel_def)
  have rs: "run undisturbed w =
     (case spawnStrategies undisturbed (strategies w) w1 of
        (Some e, w2) \<Rightarrow> (Inl e, w2)
      | (None, w2) \<Rightarrow> (let w3 = spawnCollectors (collectors w2) w2 in (Inr (tasks w3), w3)))"
    unfolding w1_def by (rule run_starts[OF assms(1-4)])
  note ss = spawnStrategies_closed[OF a(1,2) assms(5)]
  show ?thesis
    unfolding rs ss a(3)
    by (simp add: spawnCollectors_closed Let_def)
       (simp add: w1_def startRun_def started_def withSubscribers_new)
qed

lemma run_sync_fails:
  assumes "executors w \<noteq> []" and "collectors w \<noteq> []" and "\<not> running w"
    and "strategies w = pre @ s # post" and "\<forall>p \<in> set pre. \<not> throwsOnSync p"
    and "syncState s = Some (Throws e)"
  shows "run undisturbed w =
     (Inl (Error (''Failed to sync state for '' @ strategyName s @ '': '' @ toString e)),
      started w (Suc (length pre))
        (numbered RunExecutor 0 (executors w) @ numbered RunStrategy 0 pre)
        (map Spawned (numbered RunExecutor 0 (executors w)) @
         strategyEvents 0 pre @ [SyncStateCalled s]))"
proof -
  define w1 where "w1 = startRun w\<lparr>actionHeap := withSubscribers (length (actionHeap w)) (length (executors w))
                                         (actionHeap (startRun w)),
                        tasks := numbered RunExecutor 0 (executors w),
                        trace := trace w @ [RunningSet True] @
                                 map Spawned (numbered RunExecutor 0 (executors w))\<rparr>"
  have a: "eventChannel w1 = Some (length (eventHeap w))"
    "length (eventHeap w) < length (eventHeap w1)"
    "length (subscriptions (eventHeap w1 ! length (eventHeap w))) = 0"
    by (simp_all add: w1_def startRun_def newBroadcastChannel_def)
  have ne: "strategies w \<noteq> []" using assms(4) by simp
  have rs: "run undisturbed w =
     (case spawnStrategies undisturbed (strategies w) w1 of
        (Some e, w2) \<Rightarrow> (Inl e, w2)
      | (None, w2) \<Rightarrow> (let w3 = spawnCollectors (collectors w2) w2 in (Inr (tasks w3), w3)))"
    unfolding w1_def by (rule run_starts[OF assms(1,2) ne assms(3)])
  note ss = spawnStrategies_failing[OF a(1,2) assms(5,6), of post]
  show ?thesis
    unfolding rs assms(4) ss a(3)
    by simp (simp add: w1_def startRun_def started_def withSubscribers_new)
qed

lemma run_validation:
  assumes "executors w = [] \<or> collectors w = [] \<or> strategies w = [] \<or> running w"
  shows "\<exists>e. isConfigurationError e \<and> run env w = (Inl e, w)"
  using assms by (auto simp: run_def)

text \<open>
  Claim C2. \<^verbatim>\<open>run()\<close> fails with a configuration error when no executors, no
  collectors or no strategies are registered, or when the engine is already running (a
  second \<^verbatim>\<open>run()\<close> throws \<^verbatim>\<open>Engine is already running\<close>); in each of these cases the
  world after the call is the world before it: no task loop has been started and no
  channel has been created. (The checks come before the first \<^verbatim>\<open>await\<close>, so this holds
  whatever else the program does meanwhile.)
\<close>

theorem run_configuration_error:
  assumes "executors w = [] \<or> collectors w = [] \<or> strategies w = [] \<or> running w"
  shows "(\<exists>e. isConfigurationError e \<and> run env w = (Inl e, w)) \<and>
         (executors w \<noteq> [] \<and> collectors w \<noteq> [] \<and> strategies w \<noteq> [] \<longrightarrow>
            run env w = (Inl (Error ''Engine is already running''), w))"
  using assms by (auto simp: run_def)

lemma exampleEngine_fields:
  "executors exampleEngine = [Executor ''printer'']"
  "strategies exampleEngine = [Strategy ''doubler'' None]"
  "collectors exampleEngine = [Collector ''interval'']"
  "running exampleEngine = False"
  by (simp_all add: exampleEngine_def addExecutor_def addStrategy_def addCollector_def newEngine_def)

lemma run_exampleEngine:
  "run undisturbed exampleEngine =
     (Inr [RunExecutor (Executor ''printer'') 0, RunStrategy (Strategy ''doubler'' None) 0,
           RunCollector (Collector ''interval'')],
      started exampleEngine 1
        [RunExecutor (Executor ''printer'') 0, RunStrategy (Strategy ''doubler'' None) 0,
         RunCollector (Collector ''interval'')]
        [Spawned (RunExecutor (Executor ''printer'') 0),
         Spawned (RunStrategy (Strategy ''doubler'' None) 0),
         Spawned (RunCollector (Collector ''interval''))])"
proof -
  have "run undisturbed exampleEngine = 
     (Inr (numbered RunExecutor 0 (executors exampleEngine) @ numbered RunStrategy 0 (strategies exampleEngine) @
           map RunCollector (collectors exampleEngine)),
      started exampleEngine (length (strategies exampleEngine))
        (numbered RunExecutor 0 (executors exampleEngine) @ numbered RunStrategy 0 (strategies exampleEngine) @
         map RunCollector (collectors exampleEngine))
        (map Spawned (numbered RunExecutor 0 (executors exampleEngine)) @
         strategyEvents 0 (strategies exampleEngine) @
         map Spawned (map RunCollector (collectors exampleEngine))))"
    by (rule run_ok) (simp_all add: exampleEngine_fields)
  then show ?thesis by (simp add: exampleEngine_fields)
qed

theorem run_configuration_error_witness:
  "running (snd (run undisturbed exampleEngine)) \<and>
   run undisturbed (snd (run undisturbed exampleEngine)) =
     (Inl (Error ''Engine is already running''), snd (run undisturbed exampleEngine)) \<and>
   isConfigurationError (Error ''Engine is already running'')"
proof -
  let ?w = "snd (run undisturbed exampleEngine)"
  have r: "running ?w" and ne: "executors ?w \<noteq> [] \<and> collectors ?w \<noteq> [] \<and> strategies ?w \<noteq> []"
    by (simp_all add: run_exampleEngine started_def exampleEngine_fields)
  from r have h: "executors ?w = [] \<or> collectors ?w = [] \<or> strategies ?w = [] \<or> running ?w" by simp
  from run_configuration_error[OF h, where env = undisturbed] ne r show ?thesis by simp
qed

lemma run_Inr_cases:
  assumes "run undisturbed w = (Inr ts, w')"
  shows "executors w \<noteq> [] \<and> collectors w \<noteq> [] \<and> strategies w \<noteq> [] \<and> \<not> running w \<and>
         (\<forall>s \<in> set (strategies w). \<not> throwsOnSync s)"
proof -
  have v: "\<not> (executors w = [] \<or> collectors w = [] \<or> strategies w = [] \<or> running w)"
  proof
    assume "executors w = [] \<or> collectors w = [] \<or> strategies w = [] \<or> running w"
    from run_validation[OF this, where env = undisturbed] assms show False by auto
  qed
  have "\<forall>s \<in> set (strategies w). \<not> throwsOnSync s"
  proof (rule ccontr)
    assume "\<not> (\<forall>s \<in> set (strategies w). \<not> throwsOnSync s)"
    with strategies_split[of "strategies w"] obtain pre s e post where
      sp: "strategies w = pre @ s # post" "\<forall>p \<in> set pre. \<not> throwsOnSync p"
        "syncState s = Some (Throws e)" by blast
    from v have "executors w \<noteq> []" "collectors w \<noteq> []" "\<not> running w" by simp_all
    from run_sync_fails[OF this sp] assms show False by simp
  qed
  with v show ?thesis by simp
qed

text \<open>
  Claim C5. When \<^verbatim>\<open>run()\<close> succeeds it has started exactly one task loop per registered
  participant, in the order: all executors, then all strategies, then all collectors. The
  promises it returns are \<^verbatim>\<open>this.tasks\<close>; the executors hold the subscriptions
  \<open>0, 1, ...\<close> of the new action channel and the strategies those of the new event
  channel, all registered before the first collector loop is started.
\<close>

theorem run_spawns_in_order:
  assumes "run undisturbed w = (Inr ts, w')"
  shows "ts = numbered RunExecutor 0 (executors w) @ numbered RunStrategy 0 (strategies w) @
              map RunCollector (collectors w) \<and>
         map participantOf ts =
           map OfExecutor (executors w) @ map OfStrategy (strategies w) @
           map OfCollector (collectors w) \<and>
         tasks w' = ts \<and>
         actionChannel w' = Some (length (actionHeap w)) \<and>
         subscriptions (actionHeap w' ! length (actionHeap w)) =
           replicate (length (executors w)) newSubscription \<and>
         eventChannel w' = Some (length (eventHeap w)) \<and>
         subscriptions (eventHeap w' ! length (eventHeap w)) =
           replicate (length (strategies w)) newSubscription"
proof -
  from run_Inr_cases[OF assms] have
    h: "executors w \<noteq> []" "collectors w \<noteq> []" "strategies w \<noteq> []" "\<not> running w"
      "\<forall>s \<in> set (strategies w). \<not> throwsOnSync s" by simp_all
  from run_ok[OF h] assms have
    ts: "ts = numbered RunExecutor 0 (executors w) @ numbered RunStrategy 0 (strategies w) @
              map RunCollector (collectors w)"
    and w': "w' = started w (length (strategies w)) ts
        (map Spawned (numbered RunExecutor 0 (executors w)) @
         strategyEvents 0 (strategies w) @
         map Spawned (map RunCollector (collectors w)))"
    by simp_all
  have p: "map participantOf ts =
           map OfExecutor (executors w) @ map OfStrategy (strategies w) @
           map OfCollector (collectors w)"
    by (simp add: ts)
  have rest: "tasks w' = ts" "actionChannel w' = Some (length (actionHeap w))"
    "subscriptions (actionHeap w' ! length (actionHeap w)) =
           replicate (length (executors w)) newSubscription"
    "eventChannel w' = Some (length (eventHeap w))"
    "subscriptions (eventHeap w' ! length (eventHeap w)) =
           replicate (length (strategies w)) newSubscription"
    by (simp_all add: w' started_def)
  from ts p rest show ?thesis by blast
qed

theorem run_spawns_in_order_witness:
  "run undisturbed exampleEngine =
     (Inr [RunExecutor (Executor ''printer'') 0, RunStrategy (Strategy ''doubler'' None) 0,
           RunCollector (Collector ''interval'')], snd (run undisturbed exampleEngine)) \<and>
   map participantOf
     [RunExecutor (Executor ''printer'') 0, RunStrategy (Strategy ''doubler'' None) 0,
      RunCollector (Collector ''interval'')] =
     [OfExecutor (Executor ''printer''), OfStrategy (Strategy ''doubler'' None),
      OfCollector (Collector ''interval'')] \<and>
   tasks (snd (run undisturbed exampleEngine)) =
     [RunExecutor (Executor ''printer'') 0, RunStrategy (Strategy ''doubler'' None) 0,
      RunCollector (Collector ''interval'')]"
proof -
  have h: "run undisturbed exampleEngine =
     (Inr [RunExecutor (Executor ''printer'') 0, RunStrategy (Strategy ''doubler'' None) 0,
           RunCollector (Collector ''interval'')], snd (run undisturbed exampleEngine))"
    by (simp add: run_exampleEngine)
  from run_spawns_in_order[OF h] h show ?thesis
    by (simp add: exampleEngine_fields)
qed

text \<open>
  Claim C6. A strategy's \<^verbatim>\<open>syncState\<close> hook is called and awaited right before the
  strategy's task loop is started (the effects of a successful \<^verbatim>\<open>run()\<close> are those of
  \<open>strategyEvents\<close> between the executors' and the collectors' loops). When the hook of
  a strategy throws, \<^verbatim>\<open>run()\<close> throws \<^verbatim>\<open>Failed to sync state for <name>: <error>\<close>;
  the tasks started are those of the executors and of the strategies before it, none is
  that strategy's, and the hook's call is the last effect.
\<close>

theorem syncState_before_task_loop:
  "(run undisturbed w = (Inr ts, w') \<longrightarrow>
      trace w' = trace w @ [RunningSet True] @
        map Spawned (numbered RunExecutor 0 (executors w)) @
        strategyEvents 0 (strategies w) @
        map Spawned (map RunCollector (collectors w))) \<and>
   (executors w \<noteq> [] \<and> collectors w \<noteq> [] \<and> \<not> running w \<and>
    strategies w = pre @ s # post \<and> (\<forall>p \<in> set pre. \<not> throwsOnSync p) \<and>
    syncState s = Some (Throws e) \<longrightarrow>
      fst (run undisturbed w) =
        Inl (Error (''Failed to sync state for '' @ strategyName s @ '': '' @ toString e)) \<and>
      tasks (snd (run undisturbed w)) =
        numbered RunExecutor 0 (executors w) @ numbered RunStrategy 0 pre \<and>
      OfStrategy s \<notin> set (map participantOf (tasks (snd (run undisturbed w)))) \<and>
      trace (snd (run undisturbed w)) = trace w @ [RunningSet True] @
        map Spawned (numbered RunExecutor 0 (executors w)) @
        strategyEvents 0 pre @ [SyncStateCalled s])"
proof -
  have p1: "run undisturbed w = (Inr ts, w') \<longrightarrow>
      trace w' = trace w @ [RunningSet True] @
        map Spawned (numbered RunExecutor 0 (executors w)) @
        strategyEvents 0 (strategies w) @
        map Spawned (map RunCollector (collectors w))"
  proof
    assume a: "run undisturbed w = (Inr ts, w')"
    from run_Inr_cases[OF a] have
      h: "executors w \<noteq> []" "collectors w \<noteq> []" "strategies w \<noteq> []" "\<not> running w"
        "\<forall>s \<in> set (strategies w). \<not> throwsOnSync s" by simp_all
    from run_ok[OF h] a show "trace w' = trace w @ [RunningSet True] @
        map Spawned (numbered RunExecutor 0 (executors w)) @
        strategyEvents 0 (strategies w) @
        map Spawned (map RunCollector (collectors w))"
      by (simp add: started_def)
  qed
  have p2: "executors w \<noteq> [] \<and> collectors w \<noteq> [] \<and> \<not> running w \<and>
    strategies w = pre @ s # post \<and> (\<forall>p \<in> set pre. \<not> throwsOnSync p) \<and>
    syncState s = Some (Throws e) \<longrightarrow>
      fst (run undisturbed w) =
        Inl (Error (''Failed to sync state for '' @ strategyName s @ '': '' @ toString e)) \<and>
      tasks (snd (run undisturbed w)) =
        numbered RunExecutor 0 (executors w) @ numbered RunStrategy 0 pre \<and>
      OfStrategy s \<notin> set (map participantOf (tasks (snd (run undisturbed w)))) \<and>
      trace (snd (run undisturbed w)) = trace w @ [RunningSet True] @
        map Spawned (numbered RunExecutor 0 (executors w)) @
        strategyEvents 0 pre @ [SyncStateCalled s]"
  proof
    assume a: "executors w \<noteq> [] \<and> collectors w \<noteq> [] \<and> \<not> running w \<and>
      strategies w = pre @ s # post \<and> (\<forall>p \<in> set pre. \<not> throwsOnSync p) \<and>
      syncState s = Some (Throws e)"
    then have h: "executors w \<noteq> []" "collectors w \<noteq> []" "\<not> running w"
      "strategies w = pre @ s # post" "\<forall>p \<in> set pre. \<not> throwsOnSync p"
      "syncState s = Some (Throws e)" by simp_all
    have thr: "throwsOnSync s" using h(6) by (cases s) simp
    with h(5) have notin: "s \<notin> set pre" by blast
    note r = run_sync_fails[OF h]
    have t: "tasks (snd (run undisturbed w)) = numbered RunExecutor 0 (executors w) @ numbered RunStrategy 0 pre"
      by (simp add: r started_def)
    have n: "OfStrategy s \<notin> set (map participantOf (tasks (snd (run undisturbed w))))"
      using notin by (auto simp: t)
    have tr: "trace (snd (run undisturbed w)) = trace w @ [RunningSet True] @
        map Spawned (numbered RunExecutor 0 (executors w)) @
        strategyEvents 0 pre @ [SyncStateCalled s]"
      by (simp add: r started_def)
    have f: "fst (run undisturbed w) =
        Inl (Error (''Failed to sync state for '' @ strategyName s @ '': '' @ toString e))"
      by (simp add: r)
    from f t n tr show "fst (run undisturbed w) =
        Inl (Error (''Failed to sync state for '' @ strategyName s @ '': '' @ toString e)) \<and>
      tasks (snd (run undisturbed w)) =
        numbered RunExecutor 0 (executors w) @ numbered RunStrategy 0 pre \<and>
      OfStrategy s \<notin> set (map participantOf (tasks (snd (run undisturbed w)))) \<and>
      trace (snd (run undisturbed w)) = trace w @ [RunningSet True] @
        map Spawned (numbered RunExecutor 0 (executors w)) @
        strategyEvents 0 pre @ [SyncStateCalled s]" by blast
  qed
  from p1 p2 show ?thesis by (rule conjI)
qed

lemma failingSyncEngine_fields:
  "executors failingSyncEngine = [Executor ''printer'']"
  "strategies failingSyncEngine =
     [Strategy ''doubler'' None] @ Strategy ''late'' (Some (Throws (Error ''boom''))) # []"
  "collectors failingSyncEngine = [Collector ''interval'']"
  "running failingSyncEngine = False"
  "trace failingSyncEngine = []"
  by (simp_all add: failingSyncEngine_def exampleEngine_def addExecutor_def addStrategy_def
      addCollector_def newEngine_def)

theorem syncState_before_task_loop_witness:
  "fst (run undisturbed failingSyncEngine) = Inl (Error ''Failed to sync state for late: Error: boom'') \<and>
   tasks (snd (run undisturbed failingSyncEngine)) =
     [RunExecutor (Executor ''printer'') 0, RunStrategy (Strategy ''doubler'' None) 0] \<and>
   trace (snd (run undisturbed failingSyncEngine)) =
     [RunningSet True, Spawned (RunExecutor (Executor ''printer'') 0),
      Spawned (RunStrategy (Strategy ''doubler'' None) 0),
      SyncStateCalled (Strategy ''late'' (Some (Throws (Error ''boom''))))]"
proof -
  have h: "executors failingSyncEngine \<noteq> [] \<and> collectors failingSyncEngine \<noteq> [] \<and>
    \<not> running failingSyncEngine \<and>
    strategies failingSyncEngine =
      [Strategy ''doubler'' None] @ Strategy ''late'' (Some (Throws (Error ''boom''))) # [] \<and>
    (\<forall>p \<in> set [Strategy ''doubler'' None]. \<not> throwsOnSync p) \<and>
    syncState (Strategy ''late'' (Some (Throws (Error ''boom'')))) = Some (Throws (Error ''boom''))"
    by (simp add: failingSyncEngine_fields)
  from syncState_before_task_loop[of failingSyncEngine "[]" failingSyncEngine
      "[Strategy ''doubler'' None]" "Strategy ''late'' (Some (Throws (Error ''boom'')))" "[]"
      "Error ''boom''"] h
  show ?thesis by (simp add: failingSyncEngine_fields errorString_def)
qed



















lemma closedFlag_close [simp]: "closedFlag (close ch)"
  by (simp add: close_def)

lemma closedFlag_closeAt: "a < length h \<Longrightarrow> closedFlag (closeAt a h ! a)"
  by (simp add: closeAt_def)

lemma length_closeAt [simp]: "length (closeAt a h) = length h"
  by (simp add: closeAt_def)

lemma earliest_Some_right: "\<exists>t. earliest p (Some b) = Some t \<and> t \<le> b \<and> (\<forall>a. p = Some a \<longrightarrow> t \<le> a)"
  by (cases p) auto

lemma stop_settles:
  "\<exists>t. Promise_race 0 [p, setTimeout 0 timeoutMs] = Some t \<and> 0 \<le> t \<and> t \<le> max 0 timeoutMs"
proof (cases p)
  case None
  then show ?thesis by (simp add: Promise_race_def settledFrom_def setTimeout_def timerDelay_def)
next
  case (Some a)
  then show ?thesis
    by (auto simp: Promise_race_def settledFrom_def setTimeout_def timerDelay_def)
qed

lemma closeChannels_fields [simp]:
  "running (closeChannels w) = running w"
  "eventChannel (closeChannels w) = eventChannel w"
  "actionChannel (closeChannels w) = actionChannel w"
  "tasks (closeChannels w) = tasks w"
  "runningEngines (closeChannels w) = runningEngines w"
  "engineId (closeChannels w) = engineId w"
  "eventHeap (closeChannels w) =
     (case eventChannel w of None \<Rightarrow> eventHeap w | Some ec \<Rightarrow> closeAt ec (eventHeap w))"
  "actionHeap (closeChannels w) =
     (case actionChannel w of None \<Rightarrow> actionHeap w | Some ac \<Rightarrow> closeAt ac (actionHeap w))"
  "trace (closeChannels w) = trace w @
     (case eventChannel w of None \<Rightarrow> [] | Some ec \<Rightarrow> [EventChannelClosed ec]) @
     (case actionChannel w of None \<Rightarrow> [] | Some ac \<Rightarrow> [ActionChannelClosed ac])"
  by (simp_all add: closeChannels_def Let_def split: option.splits)

lemma stop_running:
  assumes "running w"
  shows "snd (stop timeoutMs exits w) =
     (closeChannels (w\<lparr>running := False, trace := trace w @ [RunningSet False]\<rparr>))
       \<lparr>eventChannel := None, actionChannel := None, tasks := [],
        runningEngines := remove1 (engineId w) (runningEngines w)\<rparr>"
    and "fst (stop timeoutMs exits w) =
       Promise_race 0
         [shutdownPromise timeoutMs exits (if timerDelay timeoutMs \<le> 100 then [] else tasks w),
          setTimeout 0 timeoutMs]"
  using assms by (simp_all add: stop_def Let_def cleanupResources_def)

text \<open>
  Claim C4. \<^verbatim>\<open>stop(timeoutMs)\<close> on an engine that is not running returns at once and
  leaves the world as it is, so a second \<^verbatim>\<open>stop\<close> changes nothing. On a running engine
  its first effect is to clear the running flag, then it closes the event channel and the
  action channel; when its promise settles \<^verbatim>\<open>isRunning()\<close> is false, the channel
  objects are closed and the engine's references to channels and tasks are dropped. The
  promise settles no later than \<^verbatim>\<open>timeoutMs\<close> after the call, whenever the tasks'
  promises settle and also when some never do.
\<close>

theorem stop_protocol:
  "(\<not> running w \<longrightarrow> stop timeoutMs exits w = (Some 0, w)) \<and>
   snd (stop timeoutMs' exits' (snd (stop timeoutMs exits w))) = snd (stop timeoutMs exits w) \<and>
   \<not> isRunning (snd (stop timeoutMs exits w)) \<and>
   (running w \<longrightarrow>
      trace (snd (stop timeoutMs exits w)) =
        trace w @ [RunningSet False] @
        (case eventChannel w of None \<Rightarrow> [] | Some ec \<Rightarrow> [EventChannelClosed ec]) @
        (case actionChannel w of None \<Rightarrow> [] | Some ac \<Rightarrow> [ActionChannelClosed ac]) \<and>
      (\<forall>ec. eventChannel w = Some ec \<and> ec < length (eventHeap w) \<longrightarrow>
         closedFlag (eventHeap (snd (stop timeoutMs exits w)) ! ec)) \<and>
      (\<forall>ac. actionChannel w = Some ac \<and> ac < length (actionHeap w) \<longrightarrow>
         closedFlag (actionHeap (snd (stop timeoutMs exits w)) ! ac)) \<and>
      tasks (snd (stop timeoutMs exits w)) = [] \<and>
      eventChannel (snd (stop timeoutMs exits w)) = None \<and>
      actionChannel (snd (stop timeoutMs exits w)) = None) \<and>
   (run undisturbed w0 = (Inr ts, w) \<longrightarrow>
      running w \<and>
      closedFlag (eventHeap (snd (stop timeoutMs exits w)) ! length (eventHeap w0)) \<and>
      closedFlag (actionHeap (snd (stop timeoutMs exits w)) ! length (actionHeap w0))) \<and>
   (\<exists>t. fst (stop timeoutMs exits w) = Some t \<and> 0 \<le> t \<and> t \<le> max 0 timeoutMs)"
proof -
  let ?w' = "snd (stop timeoutMs exits w)"
  have p1: "\<not> running w \<longrightarrow> stop timeoutMs exits w = (Some 0, w)"
    by (simp add: stop_def)
  have p3: "\<not> isRunning ?w'"
    by (cases "running w") (simp_all add: isRunning_def stop_running(1), simp add: stop_def)
  then have nr: "\<not> running ?w'" by (simp add: isRunning_def)
  have p2: "snd (stop timeoutMs' exits' ?w') = ?w'"
    using nr by (simp add: stop_def)
  have p4: "running w \<longrightarrow>
      trace ?w' =
        trace w @ [RunningSet False] @
        (case eventChannel w of None \<Rightarrow> [] | Some ec \<Rightarrow> [EventChannelClosed ec]) @
        (case actionChannel w of None \<Rightarrow> [] | Some ac \<Rightarrow> [ActionChannelClosed ac]) \<and>
      (\<forall>ec. eventChannel w = Some ec \<and> ec < length (eventHeap w) \<longrightarrow>
         closedFlag (eventHeap ?w' ! ec)) \<and>
      (\<forall>ac. actionChannel w = Some ac \<and> ac < length (actionHeap w) \<longrightarrow>
         closedFlag (actionHeap ?w' ! ac)) \<and>
      tasks ?w' = [] \<and> eventChannel ?w' = None \<and> actionChannel ?w' = None"
  proof
    assume r: "running w"
    show "trace ?w' =
        trace w @ [RunningSet False] @
        (case eventChannel w of None \<Rightarrow> [] | Some ec \<Rightarrow> [EventChannelClosed ec]) @
        (case actionChannel w of None \<Rightarrow> [] | Some ac \<Rightarrow> [ActionChannelClosed ac]) \<and>
      (\<forall>ec. eventChannel w = Some ec \<and> ec < length (eventHeap w) \<longrightarrow>
         closedFlag (eventHeap ?w' ! ec)) \<and>
      (\<forall>ac. actionChannel w = Some ac \<and> ac < length (actionHeap w) \<longrightarrow>
         closedFlag (actionHeap ?w' ! ac)) \<and>
      tasks ?w' = [] \<and> eventChannel ?w' = None \<and> actionChannel ?w' = None"
      by (simp add: stop_running(1)[OF r] closedFlag_closeAt)
  qed
  have p5: "run undisturbed w0 = (Inr ts, w) \<longrightarrow>
      running w \<and>
      closedFlag (eventHeap ?w' ! length (eventHeap w0)) \<and>
      closedFlag (actionHeap ?w' ! length (actionHeap w0))"
  proof
    assume a: "run undisturbed w0 = (Inr ts, w)"
    from run_Inr_cases[OF a] have
      h: "executors w0 \<noteq> []" "collectors w0 \<noteq> []" "strategies w0 \<noteq> []" "\<not> running w0"
        "\<forall>s \<in> set (strategies w0). \<not> throwsOnSync s" by simp_all
    from run_ok[OF h] a have w: "w = started w0 (length (strategies w0)) ts
        (map Spawned (numbered RunExecutor 0 (executors w0)) @
         strategyEvents 0 (strategies w0) @
         map Spawned (map RunCollector (collectors w0)))" by simp
    have r: "running w" by (simp add: w started_def)
    have f: "eventChannel w = Some (length (eventHeap w0))"
      "actionChannel w = Some (length (actionHeap w0))"
      "length (eventHeap w0) < length (eventHeap w)"
      "length (actionHeap w0) < length (actionHeap w)"
      by (simp_all add: w started_def)
    show "running w \<and>
      closedFlag (eventHeap ?w' ! length (eventHeap w0)) \<and>
      closedFlag (actionHeap ?w' ! length (actionHeap w0))"
      using r f by (simp add: stop_running(1)[OF r] closedFlag_closeAt)
  qed
  have p6: "\<exists>t. fst (stop timeoutMs exits w) = Some t \<and> 0 \<le> t \<and> t \<le> max 0 timeoutMs"
  proof (cases "running w")
    case True
    show ?thesis unfolding stop_running(2)[OF True] by (rule stop_settles)
  next
    case False
    then show ?thesis by (simp add: stop_def)
  qed
  show ?thesis by (rule conjI[OF p1 conjI[OF p2 conjI[OF p3 conjI[OF p4 conjI[OF p5 p6]]]]])
qed

theorem stop_protocol_witness:
  "run undisturbed exampleEngine =
     (Inr [RunExecutor (Executor ''printer'') 0, RunStrategy (Strategy ''doubler'' None) 0,
           RunCollector (Collector ''interval'')], snd (run undisturbed exampleEngine)) \<and>
   running (snd (run undisturbed exampleEngine)) \<and>
   \<not> isRunning (snd (stop 5000 (\<lambda>t. None) (snd (run undisturbed exampleEngine)))) \<and>
   closedFlag (eventHeap (snd (stop 5000 (\<lambda>t. None) (snd (run undisturbed exampleEngine)))) ! 0) \<and>
   closedFlag (actionHeap (snd (stop 5000 (\<lambda>t. None) (snd (run undisturbed exampleEngine)))) ! 0) \<and>
   fst (stop 5000 (\<lambda>t. None) (snd (run undisturbed exampleEngine))) = Some 2100"
proof -
  let ?w = "snd (run undisturbed exampleEngine)"
  have h: "run undisturbed exampleEngine =
     (Inr [RunExecutor (Executor ''printer'') 0, RunStrategy (Strategy ''doubler'' None) 0,
           RunCollector (Collector ''interval'')], ?w)"
    by (simp add: run_exampleEngine)
  have r: "running ?w" by (simp add: run_exampleEngine started_def)
  have t: "fst (stop 5000 (\<lambda>t. None) ?w) = Some 2100"
    unfolding stop_running(2)[OF r]
    by (simp add: run_exampleEngine started_def shutdownPromise_def
        Promise_race_def Promise_all_def settledFrom_def setTimeout_def timerDelay_def Let_def)
  have e: "length (eventHeap exampleEngine) = 0" "length (actionHeap exampleEngine) = 0"
    by (simp_all add: exampleEngine_def addExecutor_def addStrategy_def addCollector_def newEngine_def)
  from stop_protocol[of ?w 5000 "\<lambda>t. None" 5000 "\<lambda>t. None" exampleEngine
      "[RunExecutor (Executor ''printer'') 0, RunStrategy (Strategy ''doubler'' None) 0,
           RunCollector (Collector ''interval'')]"] h r t e
  show ?thesis by simp
qed

section \<open>Properties of the broadcast channel\<close>

lemma items_append [simp]: "items (rs @ rs') = items rs @ items rs'"
  by (induction rs rule: items.induct) simp_all

lemma subscribed_closed_form:
  "subscribed k ch = ch\<lparr>subscriptions := subscriptions ch @ replicate k newSubscription\<rparr>"
proof (induction k)
  case 0
  show ?case by (simp add: subscribed_def)
next
  case (Suc k)
  have "subscribed (Suc k) ch = snd (subscribe (subscribed k ch))"
    by (simp add: subscribed_def)
  then show ?case
    by (simp add: Suc.IH subscribe_def replicate_append_same)
qed

lemma subInv_offer:
  assumes "subInv cap xs s"
  shows "subInv cap (xs @ [x]) (offer cap x s)"
  using assms by (auto simp: subInv_def offer_def Let_def)

lemma subInv_new: "subInv cap [] newSubscription"
  by (simp add: subInv_def newSubscription_def)

lemma subseq_tl_self: "subseq (tl q) q"
  by (cases q) (simp_all add: list_emb_Cons)

lemma subseq_tl_snoc: "subseq (as @ tl (b @ [x])) (as @ b @ [x])"
  using list_emb_append_mono[OF subseq_order.order_refl[of as] subseq_tl_self[of "b @ [x]"]]
  by simp

lemma keepsNewest_offer:
  assumes "keepsNewest cap xs s" and w: "waiting s > 0 \<longrightarrow> buffered s = []"
  shows "keepsNewest cap (xs @ [x]) (offer cap x s)"
proof -
  from assms have su: "suffix (buffered s) xs"
    and sq: "subseq (items (observed s) @ buffered s) xs"
    and ct: "length (items (observed s)) + length (buffered s) + lag s = length xs"
    and cp: "int (length (buffered s)) \<le> max cap 0"
    by (simp_all add: keepsNewest_def)
  show ?thesis
  proof (cases "waiting s > 0")
    case True
    with w have b: "buffered s = []" by simp
    from sq b have "subseq (items (observed s) @ [x]) (xs @ [x])" by simp
    with True b ct show ?thesis by (simp add: keepsNewest_def offer_def)
  next
    case False
    have su': "suffix (buffered s @ [x]) (xs @ [x])" using su by simp
    have sq': "subseq (items (observed s) @ buffered s @ [x]) (xs @ [x])"
      using sq by (metis append.assoc list_emb_append_mono subseq_order.order_refl)
    show ?thesis
    proof (cases "int (length (buffered s @ [x])) > cap")
      case True
      have 1: "suffix (tl (buffered s @ [x])) (xs @ [x])"
        using su' by (meson suffix_order.trans suffix_tl)
      have 2: "subseq (items (observed s) @ tl (buffered s @ [x])) (xs @ [x])"
        using sq' subseq_tl_snoc[of "items (observed s)" "buffered s" x]
        by (meson subseq_order.trans)
      from True False 1 2 ct cp show ?thesis
        by (simp add: keepsNewest_def offer_def Let_def)
    next
      case F: False
      with False su' sq' ct show ?thesis
        by (simp add: keepsNewest_def offer_def Let_def)
    qed
  qed
qed

lemma keepsNewest_read:
  assumes "keepsNewest cap xs s"
  shows "keepsNewest cap xs (case buffered s of
                        x # q \<Rightarrow> s\<lparr>buffered := q, observed := observed s @ [Value x]\<rparr>
                      | [] \<Rightarrow> s\<lparr>waiting := waiting s + 1\<rparr>)"
proof (cases "buffered s")
  case Nil
  with assms show ?thesis by (simp add: keepsNewest_def)
next
  case (Cons x q)
  from assms Cons have "suffix q xs"
    by (metis keepsNewest_def suffix_ConsD)
  with assms Cons show ?thesis by (auto simp: keepsNewest_def)
qed

lemma keepsNewest_new: "keepsNewest cap [] newSubscription"
  by (simp add: keepsNewest_def newSubscription_def)

lemma chanInv_step:
  assumes "chanInv xs ch"
  shows "chanInv (xs @ sent [op]) (channelStep op ch) \<and>
         capacity (channelStep op ch) = capacity ch \<and>
         length (subscriptions (channelStep op ch)) = length (subscriptions ch)"
proof (cases op)
  case (Send x)
  have "subInv (capacity ch) (xs @ [x]) (offer (capacity ch) x s) \<and>
      keepsNewest (capacity ch) (xs @ [x]) (offer (capacity ch) x s)"
    if "s \<in> set (subscriptions ch)" for s
  proof -
    from assms that have i: "subInv (capacity ch) xs s" and n: "keepsNewest (capacity ch) xs s"
      by (simp_all add: chanInv_def list_all_iff)
    from i have "waiting s > 0 \<longrightarrow> buffered s = []" by (simp add: subInv_def)
    from subInv_offer[OF i] keepsNewest_offer[OF n this] show ?thesis by simp
  qed
  with assms Send show ?thesis
    by (simp add: chanInv_def send_def list_all_iff)
next
  case (Next i)
  show ?thesis
  proof (cases "i < length (subscriptions ch)")
    case False
    with assms Next show ?thesis by (simp add: receive_def)
  next
    case True
    define s where "s = subscriptions ch ! i"
    have s: "subInv (capacity ch) xs s" and n: "keepsNewest (capacity ch) xs s"
      using assms True by (simp_all add: chanInv_def list_all_length s_def)
    have op: "\<not> closedFlag ch" using assms by (simp add: chanInv_def)
    define s' where "s' = (case buffered s of
                        x # q \<Rightarrow> s\<lparr>buffered := q, observed := observed s @ [Value x]\<rparr>
                      | [] \<Rightarrow> if closedFlag ch then s\<lparr>observed := observed s @ [Done]\<rparr>
                              else s\<lparr>waiting := waiting s + 1\<rparr>)"
    have s': "subInv (capacity ch) xs s'"
      using s assms by (auto simp: s'_def subInv_def chanInv_def split: list.splits)
    have "s' = (case buffered s of
                        x # q \<Rightarrow> s\<lparr>buffered := q, observed := observed s @ [Value x]\<rparr>
                      | [] \<Rightarrow> s\<lparr>waiting := waiting s + 1\<rparr>)"
      using op by (simp add: s'_def split: list.splits)
    with keepsNewest_read[OF n] have n': "keepsNewest (capacity ch) xs s'" by simp
    have r: "receive i ch = ch\<lparr>subscriptions := (subscriptions ch)[i := s']\<rparr>"
      using True Next
      by (cases "buffered (subscriptions ch ! i)") (simp_all add: receive_def s'_def s_def Let_def)
    have "list_all (\<lambda>s. subInv (capacity ch) xs s \<and> keepsNewest (capacity ch) xs s)
        ((subscriptions ch)[i := s'])"
      using assms s' n'
      by (auto simp: chanInv_def list_all_iff dest: set_update_subset_insert[THEN subsetD])
    with assms Next show ?thesis by (simp add: r chanInv_def)
  qed
qed

lemma unreadInv_offer:
  assumes "unreadInv cap xs s" and "0 \<le> cap"
  shows "unreadInv cap (xs @ [x]) (offer cap x s)"
  using assms by (auto simp: unreadInv_def offer_def Let_def min_def)

lemma unread_step:
  assumes "\<not> closedFlag ch" and "i < length (subscriptions ch)"
    and "unreadInv (capacity ch) xs (subscriptions ch ! i)"
    and "op \<noteq> Next i" and "0 \<le> capacity ch"
  shows "\<not> closedFlag (channelStep op ch) \<and>
         capacity (channelStep op ch) = capacity ch \<and>
         length (subscriptions (channelStep op ch)) = length (subscriptions ch) \<and>
         unreadInv (capacity ch) (xs @ sent [op]) (subscriptions (channelStep op ch) ! i)"
proof (cases op)
  case (Send x)
  with assms show ?thesis by (simp add: send_def unreadInv_offer)
next
  case (Next j)
  with assms have "j \<noteq> i" by simp
  with assms Next show ?thesis by (simp add: receive_def Let_def)
qed

lemma sent_append: "sent (ops @ ops') = sent ops @ sent ops'"
  by (induction ops rule: sent.induct) simp_all

lemma chanInv_runSchedule:
  assumes "chanInv xs ch"
  shows "chanInv (xs @ sent ops) (runSchedule ops ch) \<and>
         capacity (runSchedule ops ch) = capacity ch \<and>
         length (subscriptions (runSchedule ops ch)) = length (subscriptions ch)"
  using assms
proof (induction ops arbitrary: xs ch)
  case Nil
  then show ?case by simp
next
  case (Cons op ops)
  from chanInv_step[OF Cons.prems, of op] have
    st: "chanInv (xs @ sent [op]) (channelStep op ch)"
    and c: "capacity (channelStep op ch) = capacity ch"
    and l: "length (subscriptions (channelStep op ch)) = length (subscriptions ch)" by simp_all
  have se: "sent (op # ops) = sent [op] @ sent ops"
    using sent_append[of "[op]" ops] by simp
  from Cons.IH[OF st] c l show ?case by (simp add: se)
qed

lemma chanInv_subscribed: "chanInv [] (subscribed k (newBroadcastChannel cap))"
  by (simp add: chanInv_def subscribed_closed_form newBroadcastChannel_def list_all_iff subInv_new
      keepsNewest_new)

lemma unread_runSchedule:
  assumes "\<not> closedFlag ch" and "i < length (subscriptions ch)"
    and "unreadInv (capacity ch) xs (subscriptions ch ! i)"
    and "Next i \<notin> set ops" and "0 \<le> capacity ch"
  shows "unreadInv (capacity ch) (xs @ sent ops) (subscriptions (runSchedule ops ch) ! i)"
  using assms
proof (induction ops arbitrary: xs ch)
  case Nil
  then show ?case by simp
next
  case (Cons op ops)
  have ne: "op \<noteq> Next i" and rest: "Next i \<notin> set ops" using Cons.prems(4) by auto
  from unread_step[OF Cons.prems(1,2,3) ne Cons.prems(5)] have
    st: "\<not> closedFlag (channelStep op ch)"
    and c: "capacity (channelStep op ch) = capacity ch"
    and l: "i < length (subscriptions (channelStep op ch))"
    and u: "unreadInv (capacity (channelStep op ch)) (xs @ sent [op])
              (subscriptions (channelStep op ch) ! i)"
    using Cons.prems(2) by simp_all
  have se: "sent (op # ops) = sent [op] @ sent ops"
    using sent_append[of "[op]" ops] by simp
  from Cons.IH[OF st l u rest] Cons.prems(5) c show ?case by (simp add: se)
qed

lemma suffix_is_drop:
  assumes "suffix b xs"
  shows "b = drop (length xs - length b) xs"
  using assms by (auto simp: suffix_def)


text \<open>
  Claim C1, as amended. On an open broadcast channel with \<open>k\<close> subscriptions, under every
  interleaving of sends and of the consumers' reads:
  \<^item> a subscription whose queue never overflowed (its lag counter is 0, which is certain
    when no more items are sent than the capacity) has been handed, or still holds
    queued, exactly the items sent, in send order, whatever the other subscriptions have
    read; two such subscriptions that have read everything have observed the same
    sequence, the items sent;
  \<^item> a subscription that falls behind loses its oldest items: its queue always holds the
    most recently sent items (a suffix of the items sent) and never more than the
    capacity, what it has been handed followed by what it holds is a subsequence of the
    items sent, and its lag counter is the number of items sent that it has neither been
    handed nor holds;
  \<^item> so a subscription that has not read at all holds exactly the newest \<open>cap\<close> items sent,
    and its lag counter is the number of items sent beyond \<open>cap\<close>.

  The action channel \<^verbatim>\<open>run()\<close> creates is such a channel, with one subscription per
  executor.
\<close>

theorem broadcast_fifo_without_lag:
  "(i < k \<and> lag (subscriptions (runSchedule ops (subscribed k (newBroadcastChannel cap))) ! i) = 0 \<longrightarrow>
      items (observed (subscriptions (runSchedule ops (subscribed k (newBroadcastChannel cap))) ! i)) @
      buffered (subscriptions (runSchedule ops (subscribed k (newBroadcastChannel cap))) ! i) =
        sent ops) \<and>
   (i < k \<and> int (length (sent ops)) \<le> cap \<longrightarrow>
      lag (subscriptions (runSchedule ops (subscribed k (newBroadcastChannel cap))) ! i) = 0) \<and>
   (i < k \<and> j < k \<and>
    lag (subscriptions (runSchedule ops (subscribed k (newBroadcastChannel cap))) ! i) = 0 \<and>
    lag (subscriptions (runSchedule ops (subscribed k (newBroadcastChannel cap))) ! j) = 0 \<and>
    buffered (subscriptions (runSchedule ops (subscribed k (newBroadcastChannel cap))) ! i) = [] \<and>
    buffered (subscriptions (runSchedule ops (subscribed k (newBroadcastChannel cap))) ! j) = [] \<longrightarrow>
      items (observed (subscriptions (runSchedule ops (subscribed k (newBroadcastChannel cap))) ! i)) =
        sent ops \<and>
      items (observed (subscriptions (runSchedule ops (subscribed k (newBroadcastChannel cap))) ! j)) =
        sent ops) \<and>
   (i < k \<longrightarrow>
      suffix (buffered (subscriptions (runSchedule ops (subscribed k (newBroadcastChannel cap))) ! i))
        (sent ops) \<and>
      int (length (buffered (subscriptions (runSchedule ops (subscribed k (newBroadcastChannel cap))) ! i))) \<le> max cap 0 \<and>
      subseq
        (items (observed (subscriptions (runSchedule ops (subscribed k (newBroadcastChannel cap))) ! i)) @
         buffered (subscriptions (runSchedule ops (subscribed k (newBroadcastChannel cap))) ! i))
        (sent ops) \<and>
      length (items (observed (subscriptions (runSchedule ops (subscribed k (newBroadcastChannel cap))) ! i))) +
      length (buffered (subscriptions (runSchedule ops (subscribed k (newBroadcastChannel cap))) ! i)) +
      lag (subscriptions (runSchedule ops (subscribed k (newBroadcastChannel cap))) ! i) =
        length (sent ops)) \<and>
   (i < k \<and> Next i \<notin> set ops \<and> 0 \<le> cap \<longrightarrow>
      observed (subscriptions (runSchedule ops (subscribed k (newBroadcastChannel cap))) ! i) = [] \<and>
      buffered (subscriptions (runSchedule ops (subscribed k (newBroadcastChannel cap))) ! i) =
        drop (length (sent ops) - nat cap) (sent ops) \<and>
      lag (subscriptions (runSchedule ops (subscribed k (newBroadcastChannel cap))) ! i) =
        length (sent ops) - nat cap) \<and>
   (run undisturbed w = (Inr ts, w') \<longrightarrow>
      actionHeap w' ! length (actionHeap w) =
        subscribed (length (executors w))
          (newBroadcastChannel (actionChannelCapacity (config w))))"
proof -
  define ch where "ch = runSchedule ops (subscribed k (newBroadcastChannel cap))"
  define c0 :: "'a BroadcastChannel" where "c0 = subscribed k (newBroadcastChannel cap)"
  have inv: "chanInv (sent ops) ch" and len: "length (subscriptions ch) = k"
    and cp: "capacity ch = cap"
    using chanInv_runSchedule[OF chanInv_subscribed, of ops k cap]
    by (simp_all add: ch_def subscribed_closed_form newBroadcastChannel_def)
  have sub: "subInv cap (sent ops) (subscriptions ch ! n)"
    and kn: "keepsNewest cap (sent ops) (subscriptions ch ! n)" if "n < k" for n
    using inv that len cp by (simp_all add: chanInv_def list_all_length)
  have p1: "i < k \<and> lag (subscriptions ch ! i) = 0 \<longrightarrow>
      items (observed (subscriptions ch ! i)) @ buffered (subscriptions ch ! i) = sent ops"
    using sub[of i] by (auto simp: subInv_def)
  have p2: "i < k \<and> int (length (sent ops)) \<le> cap \<longrightarrow> lag (subscriptions ch ! i) = 0"
    using sub[of i] by (auto simp: subInv_def)
  have p3: "i < k \<and> j < k \<and> lag (subscriptions ch ! i) = 0 \<and> lag (subscriptions ch ! j) = 0 \<and>
      buffered (subscriptions ch ! i) = [] \<and> buffered (subscriptions ch ! j) = [] \<longrightarrow>
      items (observed (subscriptions ch ! i)) = sent ops \<and>
      items (observed (subscriptions ch ! j)) = sent ops"
    using sub[of i] sub[of j] by (auto simp: subInv_def)
  have pS: "i < k \<longrightarrow>
      suffix (buffered (subscriptions ch ! i)) (sent ops) \<and>
      int (length (buffered (subscriptions ch ! i))) \<le> max cap 0 \<and>
      subseq (items (observed (subscriptions ch ! i)) @ buffered (subscriptions ch ! i))
        (sent ops) \<and>
      length (items (observed (subscriptions ch ! i))) +
      length (buffered (subscriptions ch ! i)) + lag (subscriptions ch ! i) =
        length (sent ops)"
    using kn[of i] by (simp add: keepsNewest_def)
  have pU: "i < k \<and> Next i \<notin> set ops \<and> 0 \<le> cap \<longrightarrow>
      observed (subscriptions ch ! i) = [] \<and>
      buffered (subscriptions ch ! i) = drop (length (sent ops) - nat cap) (sent ops) \<and>
      lag (subscriptions ch ! i) = length (sent ops) - nat cap"
  proof
    assume a: "i < k \<and> Next i \<notin> set ops \<and> 0 \<le> cap"
    have c0: "\<not> closedFlag c0" "i < length (subscriptions c0)" "capacity c0 = cap"
      "unreadInv (capacity c0) [] (subscriptions c0 ! i)"
      using a
      by (simp_all add: c0_def subscribed_closed_form newBroadcastChannel_def unreadInv_def
          newSubscription_def)
    from unread_runSchedule[OF c0(1,2,4), of ops] a c0(3)
    have u: "unreadInv cap (sent ops) (subscriptions ch ! i)"
      by (simp add: ch_def c0_def)
    then have ob: "observed (subscriptions ch ! i) = []"
      and lb: "int (length (buffered (subscriptions ch ! i))) = min (int (length (sent ops))) cap"
      by (simp_all add: unreadInv_def)
    from lb a have lb': "length (buffered (subscriptions ch ! i)) = min (length (sent ops)) (nat cap)"
      by linarith
    from kn[of i] a have su: "suffix (buffered (subscriptions ch ! i)) (sent ops)"
      and ct: "length (items (observed (subscriptions ch ! i))) +
        length (buffered (subscriptions ch ! i)) + lag (subscriptions ch ! i) = length (sent ops)"
      by (simp_all add: keepsNewest_def)
    have d: "length (sent ops) - length (buffered (subscriptions ch ! i)) =
        length (sent ops) - nat cap"
      using lb' by linarith
    have bu: "buffered (subscriptions ch ! i) = drop (length (sent ops) - nat cap) (sent ops)"
      using suffix_is_drop[OF su] unfolding d .
    have lg: "lag (subscriptions ch ! i) = length (sent ops) - nat cap"
      using ct ob lb' by simp
    from ob bu lg show "observed (subscriptions ch ! i) = [] \<and>
      buffered (subscriptions ch ! i) = drop (length (sent ops) - nat cap) (sent ops) \<and>
      lag (subscriptions ch ! i) = length (sent ops) - nat cap" by simp
  qed
  have p4: "run undisturbed w = (Inr ts, w') \<longrightarrow>
      actionHeap w' ! length (actionHeap w) =
        subscribed (length (executors w))
          (newBroadcastChannel (actionChannelCapacity (config w)))"
  proof
    assume a: "run undisturbed w = (Inr ts, w')"
    from run_Inr_cases[OF a] have
      h: "executors w \<noteq> []" "collectors w \<noteq> []" "strategies w \<noteq> []" "\<not> running w"
        "\<forall>s \<in> set (strategies w). \<not> throwsOnSync s" by simp_all
    from run_ok[OF h] a show "actionHeap w' ! length (actionHeap w) =
        subscribed (length (executors w))
          (newBroadcastChannel (actionChannelCapacity (config w)))"
      by (auto simp: started_def subscribed_closed_form newBroadcastChannel_def)
  qed
  show ?thesis
    unfolding ch_def[symmetric]
    by (rule conjI[OF p1 conjI[OF p2 conjI[OF p3 conjI[OF pS conjI[OF pU p4]]]]])
qed

lemma run_slowSubscriberSchedule:
  "runSchedule slowSubscriberSchedule (subscribed 2 (newBroadcastChannel 1)) =
     \<lparr> capacity = 1, closedFlag = False,
       subscriptions =
         [\<lparr> buffered = [], waiting = 0, lag = 0, observed = [Value 1, Value 2] \<rparr>,
          \<lparr> buffered = [], waiting = 1, lag = 1, observed = [Value 2] \<rparr>] \<rparr>"
  by (simp add: slowSubscriberSchedule_def subscribed_closed_form newBroadcastChannel_def
      newSubscription_def eval_nat_numeral receive_def send_def offer_def Let_def)

text \<open>
  Claim C1 as stated fails for a subscription that falls more than the capacity behind: on
  a channel of capacity 1 with two subscriptions, after the sends of 1 and 2 the consumer
  that read before each send has observed 1, 2 and the consumer that read only afterwards
  has observed 2 alone.
\<close>

theorem broadcast_slow_subscriber_counterexample:
  "sent slowSubscriberSchedule = [1, 2] \<and>
   items (observed (subscriptions
     (runSchedule slowSubscriberSchedule (subscribed 2 (newBroadcastChannel 1))) ! 0)) = [1, 2] \<and>
   items (observed (subscriptions
     (runSchedule slowSubscriberSchedule (subscribed 2 (newBroadcastChannel 1))) ! 1)) = [2]"
  unfolding run_slowSubscriberSchedule by (simp add: slowSubscriberSchedule_def)

theorem broadcast_fifo_without_lag_witness:
  "items (observed (subscriptions
     (runSchedule slowSubscriberSchedule (subscribed 2 (newBroadcastChannel 1))) ! 0)) @
   buffered (subscriptions
     (runSchedule slowSubscriberSchedule (subscribed 2 (newBroadcastChannel 1))) ! 0) =
     sent slowSubscriberSchedule \<and>
   sent unreadSubscriberSchedule = [1, 2, 3] \<and>
   items (observed (subscriptions
     (runSchedule unreadSubscriberSchedule (subscribed 2 (newBroadcastChannel 2))) ! 0)) @
   buffered (subscriptions
     (runSchedule unreadSubscriberSchedule (subscribed 2 (newBroadcastChannel 2))) ! 0) =
     [1, 2, 3] \<and>
   buffered (subscriptions
     (runSchedule unreadSubscriberSchedule (subscribed 2 (newBroadcastChannel 2))) ! 1) =
     [2, 3] \<and>
   lag (subscriptions
     (runSchedule unreadSubscriberSchedule (subscribed 2 (newBroadcastChannel 2))) ! 1) = 1"
proof -
  have h: "(0::nat) < 2 \<and> lag (subscriptions
     (runSchedule slowSubscriberSchedule (subscribed 2 (newBroadcastChannel 1))) ! 0) = 0"
    unfolding run_slowSubscriberSchedule by simp
  from broadcast_fifo_without_lag[of 0 2 slowSubscriberSchedule 1] h
  have w1: "items (observed (subscriptions
     (runSchedule slowSubscriberSchedule (subscribed 2 (newBroadcastChannel 1))) ! 0)) @
   buffered (subscriptions
     (runSchedule slowSubscriberSchedule (subscribed 2 (newBroadcastChannel 1))) ! 0) =
     sent slowSubscriberSchedule" by blast
  have se: "sent unreadSubscriberSchedule = [1, 2, 3]"
    by (simp add: unreadSubscriberSchedule_def)
  have h1: "(1::nat) < 2 \<and> Next 1 \<notin> set unreadSubscriberSchedule \<and> (0::int) \<le> 2"
    by (simp add: unreadSubscriberSchedule_def)
  from broadcast_fifo_without_lag[of 1 2 unreadSubscriberSchedule 2] h1
  have "buffered (subscriptions
     (runSchedule unreadSubscriberSchedule (subscribed 2 (newBroadcastChannel 2))) ! 1) =
       drop (length (sent unreadSubscriberSchedule) - nat 2) (sent unreadSubscriberSchedule)"
    and "lag (subscriptions
     (runSchedule unreadSubscriberSchedule (subscribed 2 (newBroadcastChannel 2))) ! 1) =
       length (sent unreadSubscriberSchedule) - nat 2"
    by blast+
  then have w2: "buffered (subscriptions
     (runSchedule unreadSubscriberSchedule (subscribed 2 (newBroadcastChannel 2))) ! 1) = [2, 3]"
    and w3: "lag (subscriptions
     (runSchedule unreadSubscriberSchedule (subscribed 2 (newBroadcastChannel 2))) ! 1) = 1"
    by (simp_all add: se)
  have l0: "(0::nat) < 2 \<and> lag (subscriptions
     (runSchedule unreadSubscriberSchedule (subscribed 2 (newBroadcastChannel 2))) ! 0) = 0"
    by (simp add: unreadSubscriberSchedule_def subscribed_closed_form newBroadcastChannel_def
      newSubscription_def eval_nat_numeral receive_def send_def offer_def Let_def)
  from broadcast_fifo_without_lag[of 0 2 unreadSubscriberSchedule 2] l0
  have "items (observed (subscriptions
     (runSchedule unreadSubscriberSchedule (subscribed 2 (newBroadcastChannel 2))) ! 0)) @
   buffered (subscriptions
     (runSchedule unreadSubscriberSchedule (subscribed 2 (newBroadcastChannel 2))) ! 0) =
     sent unreadSubscriberSchedule"
    by blast
  then have w4: "items (observed (subscriptions
     (runSchedule unreadSubscriberSchedule (subscribed 2 (newBroadcastChannel 2))) ! 0)) @
   buffered (subscriptions
     (runSchedule unreadSubscriberSchedule (subscribed 2 (newBroadcastChannel 2))) ! 0) =
     [1, 2, 3]"
    unfolding se .
  from w1 se w4 w2 w3 show ?thesis by blast
qed

section \<open>Properties of the collector streams\<close>

lemma nextCall_ended:
  assumes "doneFlag s" and "resolvers s = []"
  shows "doneFlag (nextCall s)" and "resolvers (nextCall s) = []"
    and "settled (nextCall s) = settled s @ [(calls s, Done)]" and "calls (nextCall s) = Suc (calls s)"
  using assms by (simp_all add: nextCall_def Let_def)

lemma cleanup_ended:
  assumes "doneFlag s" and "resolvers s = []"
  shows "doneFlag (cleanup s)" and "resolvers (cleanup s) = []"
    and "settled (cleanup s) = settled s" and "calls (cleanup s) = calls s"
  using assms by (simp_all add: cleanup_def)

lemma onExit_ended:
  assumes "doneFlag s" and "resolvers s = []"
  shows "doneFlag (onExit s)" and "resolvers (onExit s) = []"
    and "settled (onExit s) = settled s" and "calls (onExit s) = calls s"
  using assms by (simp_all add: onExit_def)

lemma deliver_ended:
  assumes "doneFlag s" and "resolvers s = []"
  shows "doneFlag (deliver m x s)" and "resolvers (deliver m x s) = []"
    and "settled (deliver m x s) = settled s" and "calls (deliver m x s) = calls s"
  using assms by (simp_all add: deliver_def Let_def)

lemma ended_run:
  assumes step: "\<And>e t. doneFlag t \<Longrightarrow> resolvers t = [] \<Longrightarrow>
      doneFlag (step e t) \<and> resolvers (step e t) = [] \<and>
      settled (step e t) = settled t @ (if e = CallNext then [(calls t, Done)] else []) \<and>
      calls (step e t) = calls t + (if e = CallNext then 1 else 0)"
    and "doneFlag s" and "resolvers s = []"
  shows "resolvers (streamRun step evs s) = [] \<and>
         settled (streamRun step evs s) =
           settled s @ map (\<lambda>p. (p, Done)) [calls s..<calls s + count_list evs CallNext]"
  using assms(2,3)
proof (induction evs arbitrary: s)
  case Nil
  then show ?case by simp
next
  case (Cons e evs)
  from step[OF Cons.prems, of e] have
    d: "doneFlag (step e s)" and r: "resolvers (step e s) = []"
    and st: "settled (step e s) = settled s @ (if e = CallNext then [(calls s, Done)] else [])"
    and c: "calls (step e s) = calls s + (if e = CallNext then 1 else 0)" by simp_all
  show ?case
  proof (cases "e = CallNext")
    case True
    have u: "[calls s..<Suc (calls s + count_list evs CallNext)] =
        calls s # [Suc (calls s)..<Suc (calls s) + count_list evs CallNext]"
      by (simp add: upt_conv_Cons)
    have st': "settled (step CallNext s) = settled s @ [(calls s, Done)]"
      and c': "calls (step CallNext s) = Suc (calls s)"
      using st c True by simp_all
    from Cons.IH[OF d r] True show ?thesis by (simp add: st' c' u del: upt_Suc)
  next
    case False
    have st': "settled (step e s) = settled s" and c': "calls (step e s) = calls s"
      using st c False by simp_all
    from Cons.IH[OF d r] False show ?thesis by (simp add: st' c')
  qed
qed

lemma intervalBunStep_ended:
  assumes "doneFlag t" and "resolvers t = []"
  shows "doneFlag (intervalBunStep e t) \<and> resolvers (intervalBunStep e t) = [] \<and>
      settled (intervalBunStep e t) = settled t @ (if e = CallNext then [(calls t, Done)] else []) \<and>
      calls (intervalBunStep e t) = calls t + (if e = CallNext then 1 else 0)"
  using assms
  by (cases e) (simp_all add: nextCall_ended cleanup_ended onExit_ended deliver_ended)

lemma blockBunStep_ended:
  assumes "doneFlag t" and "resolvers t = []"
  shows "doneFlag (blockBunStep m e t) \<and> resolvers (blockBunStep m e t) = [] \<and>
      settled (blockBunStep m e t) = settled t @ (if e = CallNext then [(calls t, Done)] else []) \<and>
      calls (blockBunStep m e t) = calls t + (if e = CallNext then 1 else 0)"
  using assms
  by (cases e) (simp_all add: nextCall_ended cleanup_ended onExit_ended deliver_ended)

lemma pollingStep_ended:
  assumes "doneFlag t" and "resolvers t = []"
  shows "doneFlag (pollingStep m e t) \<and> resolvers (pollingStep m e t) = [] \<and>
      settled (pollingStep m e t) = settled t @ (if e = CallNext then [(calls t, Done)] else []) \<and>
      calls (pollingStep m e t) = calls t + (if e = CallNext then 1 else 0)"
  using assms
  by (cases e) (simp_all add: nextCall_ended cleanup_ended pollBlock_def)

lemma endsStream_cleanup:
  assumes "\<And>e t. doneFlag t \<Longrightarrow> resolvers t = [] \<Longrightarrow>
      doneFlag (step e t) \<and> resolvers (step e t) = [] \<and>
      settled (step e t) = settled t @ (if e = CallNext then [(calls t, Done)] else []) \<and>
      calls (step e t) = calls t + (if e = CallNext then 1 else 0)"
  shows "endsStream step s (cleanup s) evs" and "endsStream step s (onExit s) evs"
proof -
  have c: "doneFlag (cleanup s)" "resolvers (cleanup s) = []" "calls (cleanup s) = calls s"
    by (simp_all add: cleanup_def)
  have x: "doneFlag (onExit s)" "resolvers (onExit s) = []" "calls (onExit s) = calls s"
    by (simp_all add: onExit_def)
  show "endsStream step s (cleanup s) evs"
    using ended_run[of step "cleanup s" evs, OF assms c(1,2)]
    by (simp add: endsStream_def c(3)) (simp add: cleanup_def)
  show "endsStream step s (onExit s) evs"
    using ended_run[of step "onExit s" evs, OF assms x(1,2)]
    by (simp add: endsStream_def x(3)) (simp add: onExit_def)
qed

text \<open>
  The part of claim C10 that holds. After the cleanup of a collector stream, whether
  \<^verbatim>\<open>return()\<close> was called or the worker process has exited, every call of \<^verbatim>\<open>next()\<close>
  that was waiting has been answered with the end of the stream, and whatever happens
  afterwards every later call of \<^verbatim>\<open>next()\<close> is answered with the end of the stream at
  once, so no buffered item is delivered after the cleanup; \<^verbatim>\<open>return()\<close> empties the
  queue. This holds of the streams of \<^verbatim>\<open>IntervalCollectorBun\<close> and
  \<^verbatim>\<open>BlockCollectorBun\<close> and of the polling stream of \<^verbatim>\<open>BlockCollector\<close> (which has no
  worker process).
\<close>

theorem cleanup_ends_stream:
  "endsStream intervalBunStep s (intervalBunStep CallReturn s) evs \<and>
   queue (intervalBunStep CallReturn s) = [] \<and>
   endsStream intervalBunStep s (intervalBunStep WorkerExit s) evs \<and>
   endsStream (blockBunStep maxQueueSize) sb (blockBunStep maxQueueSize CallReturn sb) evsb \<and>
   queue (blockBunStep maxQueueSize CallReturn sb) = [] \<and>
   endsStream (blockBunStep maxQueueSize) sb (blockBunStep maxQueueSize WorkerExit sb) evsb \<and>
   endsStream (pollingStep maxQueueSize) sp (pollingStep maxQueueSize CallReturn sp) evsb \<and>
   queue (pollingStep maxQueueSize CallReturn sp) = []"
  using endsStream_cleanup[of intervalBunStep s evs, OF intervalBunStep_ended]
    endsStream_cleanup[of "blockBunStep maxQueueSize" sb evsb, OF blockBunStep_ended]
    endsStream_cleanup[of "pollingStep maxQueueSize" sp evsb, OF pollingStep_ended]
  by (simp add: cleanup_def)

theorem cleanup_ends_stream_witness:
  "settled (streamRun intervalBunStep [CallNext, Incoming (5::nat), CallNext]
      (intervalBunStep CallReturn
         \<lparr> queue = [], resolvers = [0], doneFlag = False, settled = [], calls = 1 \<rparr>)) =
     [(0, Done), (1, Done), (2, Done)] \<and>
   resolvers (streamRun intervalBunStep [CallNext, Incoming (5::nat), CallNext]
      (intervalBunStep CallReturn
         \<lparr> queue = [], resolvers = [0], doneFlag = False, settled = [], calls = 1 \<rparr>)) = []"
proof -
  let ?s = "\<lparr> queue = [], resolvers = [0], doneFlag = False, settled = [], calls = 1 \<rparr> :: nat Stream"
  from cleanup_ends_stream[of ?s "[CallNext, Incoming 5, CallNext]"]
  have e: "endsStream intervalBunStep ?s (intervalBunStep CallReturn ?s)
      [CallNext, Incoming 5, CallNext]" by blast
  note e' = e[unfolded endsStream_def]
  note r = e'[THEN conjunct2, THEN conjunct1] and st = e'[THEN conjunct2, THEN conjunct2]
  show ?thesis
    unfolding st r by (simp add: cleanup_def upt_rec)
qed

text \<open>
  Claim C10 at the input on which the code departs from it. A block, or a timestamp, is
  buffered when the worker process exits: \<^verbatim>\<open>onExit\<close> marks the stream as done and
  resolves the waiting resolvers, but unlike \<^verbatim>\<open>cleanup\<close> (\<^verbatim>\<open>// Clear the queue\<close>) it
  does not empty the queue, so the item is still there afterwards; after \<^verbatim>\<open>return()\<close>
  the queue is empty.
\<close>

theorem worker_exit_keeps_queue:
  "queue (streamRun (blockBunStep 100) [Incoming (Block (Num 1) 0), WorkerExit] initialStream) =
     [Block (Num 1) 0] \<and>
   queue (streamRun (blockBunStep 100) [Incoming (Block (Num 1) 0), CallReturn] initialStream) =
     [] \<and>
   queue (streamRun intervalBunStep [Incoming (1700000000000::nat), WorkerExit] initialStream) =
     [1700000000000] \<and>
   queue (streamRun intervalBunStep [Incoming (1700000000000::nat), CallReturn] initialStream) =
     []"
  by (simp add: initialStream_def deliver_def onExit_def cleanup_def Let_def)

lemma hasNumber_iff: "hasNumber b \<longleftrightarrow> (\<exists>n. number b = Num n)"
  by (cases b rule: hasNumber.cases) simp_all

lemma atMost_iff: "atMost n b \<longleftrightarrow> (\<exists>m. number b = Num m \<and> m \<le> n)"
  by (cases "(n, b)" rule: atMost.cases) simp_all

lemma increasing_Nil [simp]: "increasing []"
  by (simp add: increasing_def)

lemma increasing_snoc:
  assumes "increasing bs" and "number b = Num k" and "list_all (atMost n) bs" and "n < k"
  shows "increasing (bs @ [b])"
  using assms
  by (auto simp: increasing_def sorted_wrt_append list_all_iff atMost_iff hasNumber_iff)

lemma increasing_single: "number b = Num k \<Longrightarrow> increasing [b]"
  by (simp add: increasing_def hasNumber_iff)

lemma increasing_append_tl:
  assumes "increasing (xs @ ys)"
  shows "increasing (xs @ tl ys)"
proof (cases ys)
  case Nil
  with assms show ?thesis by simp
next
  case (Cons y ys')
  with assms show ?thesis by (auto simp: increasing_def sorted_wrt_append)
qed

lemma increasing_prefix: "increasing (xs @ ys) \<Longrightarrow> increasing xs"
  by (auto simp: increasing_def sorted_wrt_append)

lemma numberedInv_accept:
  assumes "numberedInv bs l" and "number b = Num k" and "l = Null \<or> gt (Num k) l" and "l \<noteq> Undefined"
  shows "numberedInv (bs @ [b]) (Num k)"
proof (cases l)
  case Undefined
  with assms show ?thesis by simp
next
  case Null
  with assms show ?thesis by (simp add: numberedInv_def increasing_single atMost_iff)
next
  case (Num n)
  with assms have lt: "n < k" and inc: "increasing bs" and am: "list_all (atMost n) bs"
    by (simp_all add: numberedInv_def)
  have "list_all (atMost k) bs"
    using am lt by (auto simp: list_all_iff atMost_iff)
  with increasing_snoc[OF inc assms(2) am lt] assms(2) show ?thesis
    by (simp add: numberedInv_def atMost_iff)
qed

lemma numberedInv_append_tl:
  assumes "numberedInv (xs @ ys) l"
  shows "numberedInv (xs @ tl ys) l"
proof -
  have sub: "set (tl ys) \<subseteq> set ys" by (cases ys) auto
  show ?thesis
    using assms increasing_append_tl[of xs ys] sub
    by (cases l) (auto simp: numberedInv_def list_all_iff)
qed

lemma numberedInv_prefix: "numberedInv (xs @ ys) l \<Longrightarrow> numberedInv xs l"
  using increasing_prefix[of xs ys] by (cases l) (auto simp: numberedInv_def)

lemma delivered_simps [simp]:
  "delivered (s\<lparr>settled := st\<rparr>) = items (map snd st)"
  "delivered (s\<lparr>queue := q\<rparr>) = delivered s"
  "delivered (s\<lparr>resolvers := rs\<rparr>) = delivered s"
  "delivered (s\<lparr>calls := c\<rparr>) = delivered s"
  "delivered (s\<lparr>doneFlag := d\<rparr>) = delivered s"
  by (simp_all add: delivered_def)

lemma items_map_Done [simp]: "items (map (\<lambda>r. Done) rs) = []"
  by (induction rs) simp_all

lemma items_map_snd_Done [simp]: "items (map (snd \<circ> (\<lambda>r. (r, Done))) rs) = []"
  by (induction rs) simp_all

lemma streamInv_nextCall:
  assumes "streamInv s"
  shows "streamInv (nextCall s)"
  using assms
  by (auto simp: streamInv_def nextCall_def Let_def delivered_def split: list.splits)

lemma streamInv_cleanup:
  assumes "streamInv s"
  shows "streamInv (cleanup s)"
  using assms numberedInv_prefix[of "delivered s" "queue s" "lastBlockNumber s"]
  by (simp add: streamInv_def cleanup_def delivered_def)

lemma streamInv_accept:
  assumes "streamInv s" and "number b = Num k"
    and "lastBlockNumber s = Null \<or> gt (Num k) (lastBlockNumber s)"
  shows "streamInv (deliver m b (s\<lparr>lastBlockNumber := number b\<rparr>))"
proof -
  from assms(1) have q: "resolvers s \<noteq> [] \<longrightarrow> queue s = []"
    and nu: "lastBlockNumber s \<noteq> Undefined"
    and ni: "numberedInv (delivered s @ queue s) (lastBlockNumber s)"
    by (simp_all add: streamInv_def)
  note acc = numberedInv_accept[OF ni assms(2,3) nu]
  show ?thesis
  proof (cases "resolvers s")
    case Nil
    have "numberedInv (delivered s @ tl (queue s @ [b])) (Num k)"
      using numberedInv_append_tl[of "delivered s" "queue s @ [b]" "Num k"] acc by simp
    with Nil acc assms(2) show ?thesis
      by (simp add: streamInv_def deliver_def Let_def delivered_def)
  next
    case (Cons r rs)
    with q have "queue s = []" by simp
    with Cons acc assms(2) show ?thesis
      by (simp add: streamInv_def deliver_def Let_def delivered_def)
  qed
qed

lemma streamInv_onBlock:
  assumes "streamInv s" and "number b \<noteq> Null"
  shows "streamInv (onBlock m b s)"
proof (cases "number b")
  case Undefined
  with assms show ?thesis by (simp add: onBlock_def)
next
  case Null
  with assms show ?thesis by simp
next
  case (Num k)
  with assms(1) streamInv_accept[OF assms(1) Num] show ?thesis
    by (auto simp: onBlock_def)
qed

lemma streamInv_pollBlock:
  assumes "streamInv s" and "hasNumber b"
  shows "streamInv (pollBlock m b s)"
proof -
  from assms(2) obtain k where Num: "number b = Num k" by (auto simp: hasNumber_iff)
  with assms(1) streamInv_accept[OF assms(1) Num] show ?thesis
    by (auto simp: pollBlock_def)
qed

lemma streamInv_initial: "streamInv initialNumberedStream"
  by (simp add: streamInv_def initialNumberedStream_def numberedInv_def delivered_def)

lemma streamInv_webSocket:
  assumes "\<forall>b. Incoming b \<in> set evs \<longrightarrow> number b \<noteq> Null" and "streamInv s"
  shows "streamInv (streamRun (webSocketStep m) evs s)"
  using assms
proof (induction evs arbitrary: s)
  case Nil
  then show ?case by simp
next
  case (Cons e evs)
  have "streamInv (webSocketStep m e s)"
    using Cons.prems
    by (cases e) (simp_all add: streamInv_onBlock streamInv_nextCall streamInv_cleanup)
  with Cons show ?case by simp
qed

lemma streamInv_polling:
  assumes "\<forall>b. Incoming b \<in> set evs \<longrightarrow> hasNumber b" and "streamInv s"
  shows "streamInv (streamRun (pollingStep m) evs s)"
  using assms
proof (induction evs arbitrary: s)
  case Nil
  then show ?case by simp
next
  case (Cons e evs)
  have "streamInv (pollingStep m e s)"
    using Cons.prems
    by (cases e) (simp_all add: streamInv_pollBlock streamInv_nextCall streamInv_cleanup)
  with Cons show ?case by simp
qed

lemma not_gt_last:
  assumes "numberedInv bs l" and "d \<in> set bs" and "\<not> gt (number b) (number d)"
  shows "l \<noteq> Null \<and> \<not> gt (number b) l"
proof (cases l)
  case Undefined
  with assms show ?thesis by (simp add: numberedInv_def)
next
  case Null
  with assms show ?thesis by (simp add: numberedInv_def)
next
  case (Num n)
  with assms(1,2) obtain m where m: "number d = Num m" "m \<le> n"
    by (auto simp: numberedInv_def list_all_iff atMost_iff)
  with assms(3) Num show ?thesis by (cases "number b") auto
qed

lemma streamInv_skip:
  assumes "streamInv s" and "d \<in> set (delivered s)" and "\<not> gt (number b) (number d)"
  shows "onBlock m b s = s" and "pollBlock m b s = s"
proof -
  from assms(1) have ni: "numberedInv (delivered s @ queue s) (lastBlockNumber s)"
    by (simp add: streamInv_def)
  from assms(2) have "d \<in> set (delivered s @ queue s)" by simp
  from not_gt_last[OF ni this assms(3)] show "onBlock m b s = s" and "pollBlock m b s = s"
    by (simp_all add: onBlock_def pollBlock_def)
qed

lemma workerInv_sendBlock:
  assumes "workerInv w"
  shows "workerInv (sendBlock b w)"
proof (cases "number b")
  case Undefined
  with assms show ?thesis by (simp add: sendBlock_def)
next
  case Null
  with assms show ?thesis by (simp add: sendBlock_def)
next
  case (Num k)
  from assms have nu: "workerLastBlockNumber w \<noteq> Undefined"
    and ni: "numberedInv (sentBlocks w) (workerLastBlockNumber w)" by (simp_all add: workerInv_def)
  show ?thesis
  proof (cases "workerLastBlockNumber w = Null \<or> gt (Num k) (workerLastBlockNumber w)")
    case True
    from numberedInv_accept[OF ni Num True nu] Num True show ?thesis
      by (simp add: sendBlock_def workerInv_def)
  next
    case False
    with assms Num show ?thesis by (simp add: sendBlock_def)
  qed
qed

lemma workerInv_run: "workerInv w \<Longrightarrow> workerInv (streamRun sendBlock bs w)"
  by (induction bs arbitrary: w) (simp_all add: workerInv_sendBlock)

lemma workerInv_initial: "workerInv initialWorker"
  by (simp add: workerInv_def initialWorker_def numberedInv_def)

text \<open>
  The part of claim C9 that holds. The blocks a block collector hands on have strictly
  increasing numbers, and a block whose number is not greater than that of a block handed
  on before is silently skipped:
  \<^item> the worker's \<^verbatim>\<open>sendBlock\<close>, for every sequence of blocks; it skips a block whose
    number is \<^verbatim>\<open>undefined\<close> or \<^verbatim>\<open>null\<close>;
  \<^item> the WebSocket stream of \<^verbatim>\<open>BlockCollector\<close>, under every interleaving of incoming
    blocks with the consumer's calls, when no incoming block's number is \<^verbatim>\<open>null\<close>; it
    skips a block whose number is \<^verbatim>\<open>undefined\<close>;
  \<^item> the polling stream of \<^verbatim>\<open>BlockCollector\<close>, when every fetched block has a number.
\<close>

theorem block_numbers_increase:
  "increasing (sentBlocks (streamRun sendBlock bs initialWorker)) \<and>
   (number b = Undefined \<or> number b = Null \<longrightarrow> sendBlock b w = w) \<and>
   (d \<in> set (sentBlocks (streamRun sendBlock bs initialWorker)) \<and>
    \<not> gt (number b) (number d) \<longrightarrow>
      sendBlock b (streamRun sendBlock bs initialWorker) = streamRun sendBlock bs initialWorker) \<and>
   (number b = Undefined \<longrightarrow> onBlock maxQueueSize b s = s) \<and>
   ((\<forall>x. Incoming x \<in> set evs \<longrightarrow> number x \<noteq> Null) \<longrightarrow>
      increasing (delivered (streamRun (webSocketStep maxQueueSize) evs initialNumberedStream)) \<and>
      (d \<in> set (delivered (streamRun (webSocketStep maxQueueSize) evs initialNumberedStream)) \<and>
       \<not> gt (number b) (number d) \<longrightarrow>
         onBlock maxQueueSize b (streamRun (webSocketStep maxQueueSize) evs initialNumberedStream) =
           streamRun (webSocketStep maxQueueSize) evs initialNumberedStream)) \<and>
   ((\<forall>x. Incoming x \<in> set evs \<longrightarrow> hasNumber x) \<longrightarrow>
      increasing (delivered (streamRun (pollingStep maxQueueSize) evs initialNumberedStream)) \<and>
      (d \<in> set (delivered (streamRun (pollingStep maxQueueSize) evs initialNumberedStream)) \<and>
       \<not> gt (number b) (number d) \<longrightarrow>
         pollBlock maxQueueSize b (streamRun (pollingStep maxQueueSize) evs initialNumberedStream) =
           streamRun (pollingStep maxQueueSize) evs initialNumberedStream))"
proof -
  define wk where "wk = streamRun sendBlock bs initialWorker"
  define ws where "ws = streamRun (webSocketStep maxQueueSize) evs initialNumberedStream"
  define ps where "ps = streamRun (pollingStep maxQueueSize) evs initialNumberedStream"
  have wi: "workerInv wk" unfolding wk_def by (rule workerInv_run[OF workerInv_initial])
  have p1: "increasing (sentBlocks wk)" using wi by (simp add: workerInv_def numberedInv_def)
  have p2: "number b = Undefined \<or> number b = Null \<longrightarrow> sendBlock b w = w"
    by (simp add: sendBlock_def)
  have p3: "d \<in> set (sentBlocks wk) \<and> \<not> gt (number b) (number d) \<longrightarrow> sendBlock b wk = wk"
  proof
    assume a: "d \<in> set (sentBlocks wk) \<and> \<not> gt (number b) (number d)"
    from wi have "numberedInv (sentBlocks wk) (workerLastBlockNumber wk)"
      by (simp add: workerInv_def)
    from not_gt_last[OF this conjunct1[OF a] conjunct2[OF a]] show "sendBlock b wk = wk"
      by (simp add: sendBlock_def)
  qed
  have p4: "number b = Undefined \<longrightarrow> onBlock maxQueueSize b s = s"
    by (simp add: onBlock_def)
  have p5: "(\<forall>x. Incoming x \<in> set evs \<longrightarrow> number x \<noteq> Null) \<longrightarrow>
      increasing (delivered ws) \<and>
      (d \<in> set (delivered ws) \<and> \<not> gt (number b) (number d) \<longrightarrow> onBlock maxQueueSize b ws = ws)"
  proof
    assume a: "\<forall>x. Incoming x \<in> set evs \<longrightarrow> number x \<noteq> Null"
    have inv: "streamInv ws" unfolding ws_def by (rule streamInv_webSocket[OF a streamInv_initial])
    then have "numberedInv (delivered ws @ queue ws) (lastBlockNumber ws)" by (simp add: streamInv_def)
    then have "increasing (delivered ws)" using increasing_prefix by (auto simp: numberedInv_def)
    moreover have "d \<in> set (delivered ws) \<and> \<not> gt (number b) (number d) \<longrightarrow>
        onBlock maxQueueSize b ws = ws"
      using streamInv_skip(1)[OF inv] by blast
    ultimately show "increasing (delivered ws) \<and>
      (d \<in> set (delivered ws) \<and> \<not> gt (number b) (number d) \<longrightarrow> onBlock maxQueueSize b ws = ws)"
      by (rule conjI)
  qed
  have p6: "(\<forall>x. Incoming x \<in> set evs \<longrightarrow> hasNumber x) \<longrightarrow>
      increasing (delivered ps) \<and>
      (d \<in> set (delivered ps) \<and> \<not> gt (number b) (number d) \<longrightarrow> pollBlock maxQueueSize b ps = ps)"
  proof
    assume a: "\<forall>x. Incoming x \<in> set evs \<longrightarrow> hasNumber x"
    have inv: "streamInv ps" unfolding ps_def by (rule streamInv_polling[OF a streamInv_initial])
    then have "numberedInv (delivered ps @ queue ps) (lastBlockNumber ps)" by (simp add: streamInv_def)
    then have "increasing (delivered ps)" using increasing_prefix by (auto simp: numberedInv_def)
    moreover have "d \<in> set (delivered ps) \<and> \<not> gt (number b) (number d) \<longrightarrow>
        pollBlock maxQueueSize b ps = ps"
      using streamInv_skip(2)[OF inv] by blast
    ultimately show "increasing (delivered ps) \<and>
      (d \<in> set (delivered ps) \<and> \<not> gt (number b) (number d) \<longrightarrow> pollBlock maxQueueSize b ps = ps)"
      by (rule conjI)
  qed
  show ?thesis
    unfolding wk_def[symmetric] ws_def[symmetric] ps_def[symmetric]
    by (rule conjI[OF p1 conjI[OF p2 conjI[OF p3 conjI[OF p4 conjI[OF p5 p6]]]]])
qed

lemma run_polledBlocks:
  "streamRun (pollingStep 100) polledBlocks initialNumberedStream =
     \<lparr> queue = [], resolvers = [2], doneFlag = False,
       settled = [(0, Value (Block (Num 5) 0)), (1, Value (Block (Num 7) 2))], calls = 3,
       lastBlockNumber = Num 7 \<rparr>"
  by (simp add: polledBlocks_def initialNumberedStream_def pollBlock_def deliver_def nextCall_def
      Let_def)

theorem block_numbers_increase_witness:
  "delivered (streamRun (pollingStep 100) polledBlocks initialNumberedStream) =
     [Block (Num 5) 0, Block (Num 7) 2] \<and>
   increasing (delivered (streamRun (pollingStep 100) polledBlocks initialNumberedStream)) \<and>
   pollBlock 100 (Block (Num 5) 3)
     (streamRun (pollingStep 100) polledBlocks initialNumberedStream) =
     streamRun (pollingStep 100) polledBlocks initialNumberedStream"
proof -
  have h: "\<forall>x. Incoming x \<in> set polledBlocks \<longrightarrow> hasNumber x"
    by (auto simp: polledBlocks_def)
  have d: "delivered (streamRun (pollingStep 100) polledBlocks initialNumberedStream) =
     [Block (Num 5) 0, Block (Num 7) 2]"
    by (simp add: run_polledBlocks delivered_def)
  have m: "Block (Num 7) 2 \<in> set (delivered (streamRun (pollingStep 100) polledBlocks
      initialNumberedStream)) \<and> \<not> gt (number (Block (Num 5) 3)) (number (Block (Num 7) 2))"
    by (simp add: d)
  from block_numbers_increase[of "[]" "Block (Num 5) 3" initialWorker "Block (Num 7) 2" 100
      initialNumberedStream polledBlocks] h d m
  show ?thesis by blast
qed


end
